theory Spec2Isabelle
  imports Complex_Main "HOL-Library.Word"
begin

section \<open>The C++ type \<open>float\<close>: IEEE 754 binary32\<close>

text \<open>
  \<open>Source.cpp\<close> computes with \<open>float\<close>. A value is a NaN, an infinity with its sign, or a
  finite number \<open>Fin s m e\<close> of sign \<open>s\<close> (\<open>True\<close> is minus), significand \<open>m\<close> and exponent
  \<open>e\<close>, standing for \<open>(-1)^s * m * 2^e\<close>. The operations below always produce the one
  representation with \<open>m < 2^24\<close>, \<open>-149 \<le> e \<le> 104\<close> and \<open>2^23 \<le> m\<close> unless \<open>e = -149\<close>
  (subnormal numbers and the two zeros), so equality of values of this type is equality of
  the bit patterns (NaN payloads apart). Every arithmetic operation rounds the exact result
  to the nearest representable number, ties to the even significand, as the default rounding
  mode does.
\<close>

datatype float = NaN | Inf bool | Fin bool nat int

fun bit_length :: "nat \<Rightarrow> nat" where
  "bit_length n = (if n = 0 then 0 else Suc (bit_length (n div 2)))"

declare bit_length.simps [simp del]

fun isqrt :: "nat \<Rightarrow> nat" where
  "isqrt n = (if n < 2 then n
              else let r = 2 * isqrt (n div 4)
                   in if (r + 1) * (r + 1) \<le> n then r + 1 else r)"

declare isqrt.simps [simp del]

text \<open>\<open>floor_log2_ratio a b\<close> is the integer part of the binary logarithm of \<open>a / b\<close>.\<close>

definition floor_log2_ratio :: "nat \<Rightarrow> nat \<Rightarrow> int" where
  "floor_log2_ratio a b =
     (let d = int (bit_length a) - int (bit_length b)
      in if (if 0 \<le> d then b * 2 ^ nat d \<le> a else b \<le> a * 2 ^ nat (- d)) then d else d - 1)"

text \<open>The integer nearest to \<open>num / den\<close>, the even one of the two when it lies half way.\<close>

definition nearest_even :: "nat \<Rightarrow> nat \<Rightarrow> nat" where
  "nearest_even num den =
     (let f = num div den; r = num mod den
      in if 2 * r < den then f
         else if den < 2 * r then f + 1
         else if even f then f else f + 1)"

text \<open>
  \<open>pack s q t\<close> is the float \<open>q * 2^t\<close> after rounding: a significand that rounding carried up
  to \<open>2^24\<close> moves to the next exponent, and a number beyond the largest finite one is an
  infinity.
\<close>

definition pack :: "bool \<Rightarrow> nat \<Rightarrow> int \<Rightarrow> float" where
  "pack s q t =
     (if q = 2 ^ 24 then (if 104 \<le> t then Inf s else Fin s (2 ^ 23) (t + 1))
      else if 104 < t then Inf s else Fin s q t)"

text \<open>\<open>round_ratio s a b e\<close> is the float nearest to \<open>(a / b) * 2^e\<close>, for \<open>a\<close> and \<open>b\<close> positive.\<close>

definition round_ratio :: "bool \<Rightarrow> nat \<Rightarrow> nat \<Rightarrow> int \<Rightarrow> float" where
  "round_ratio s a b e =
     (let t = max (e + floor_log2_ratio a b - 23) (- 149)
      in if t \<le> e then pack s (nearest_even (a * 2 ^ nat (e - t)) b) t
         else pack s (nearest_even a (b * 2 ^ nat (t - e))) t)"

definition fzero :: "bool \<Rightarrow> float" where
  "fzero s = Fin s 0 (- 149)"

definition signed :: "bool \<Rightarrow> nat \<Rightarrow> int" where
  "signed s n = (if s then - int n else int n)"

definition fneg :: "float \<Rightarrow> float" where
  "fneg a = (case a of NaN \<Rightarrow> NaN | Inf s \<Rightarrow> Inf (\<not> s) | Fin s m e \<Rightarrow> Fin (\<not> s) m e)"

fun fadd :: "float \<Rightarrow> float \<Rightarrow> float" where
  "fadd NaN _ = NaN"
| "fadd _ NaN = NaN"
| "fadd (Inf s) (Inf t) = (if s = t then Inf s else NaN)"
| "fadd (Inf s) (Fin _ _ _) = Inf s"
| "fadd (Fin _ _ _) (Inf t) = Inf t"
| "fadd (Fin s m e) (Fin t n g) =
     (let x = min e g;
          v = signed s (m * 2 ^ nat (e - x)) + signed t (n * 2 ^ nat (g - x))
      in if v = 0 then fzero (s \<and> t)
         else round_ratio (v < 0) (nat \<bar>v\<bar>) 1 x)"

definition fsub :: "float \<Rightarrow> float \<Rightarrow> float" where
  "fsub a b = fadd a (fneg b)"

fun fmul :: "float \<Rightarrow> float \<Rightarrow> float" where
  "fmul NaN _ = NaN"
| "fmul _ NaN = NaN"
| "fmul (Inf s) (Inf t) = Inf (s \<noteq> t)"
| "fmul (Inf s) (Fin t n _) = (if n = 0 then NaN else Inf (s \<noteq> t))"
| "fmul (Fin s m _) (Inf t) = (if m = 0 then NaN else Inf (s \<noteq> t))"
| "fmul (Fin s m e) (Fin t n g) =
     (if m = 0 \<or> n = 0 then fzero (s \<noteq> t)
      else round_ratio (s \<noteq> t) (m * n) 1 (e + g))"

fun fdiv :: "float \<Rightarrow> float \<Rightarrow> float" where
  "fdiv NaN _ = NaN"
| "fdiv _ NaN = NaN"
| "fdiv (Inf s) (Inf t) = NaN"
| "fdiv (Inf s) (Fin t _ _) = Inf (s \<noteq> t)"
| "fdiv (Fin s _ _) (Inf t) = fzero (s \<noteq> t)"
| "fdiv (Fin s m e) (Fin t n g) =
     (if n = 0 then (if m = 0 then NaN else Inf (s \<noteq> t))
      else if m = 0 then fzero (s \<noteq> t)
      else round_ratio (s \<noteq> t) m n (e - g))"

text \<open>
  The square root scales the significand to at least 52 bits with an even exponent, takes
  the integer root and decides the last place by comparing with the square of the midpoint,
  which is exact.
\<close>

fun fsqrt :: "float \<Rightarrow> float" where
  "fsqrt NaN = NaN"
| "fsqrt (Inf s) = (if s then NaN else Inf False)"
| "fsqrt (Fin s m e) =
     (if m = 0 then fzero s
      else if s then NaN
      else let p = (if even e then 52 else 53);
               N = m * 2 ^ p;
               r = isqrt N;
               k = bit_length r - 24;
               f = r div 2 ^ k;
               mid = (2 * f + 1) * 2 ^ (k - 1);
               q = (if N < mid * mid then f
                    else if mid * mid < N then f + 1
                    else if even f then f else f + 1)
           in pack False q ((e - int p) div 2 + int k))"

text \<open>The comparisons \<open><\<close>, \<open>>\<close> and \<open>==\<close>: false whenever an operand is a NaN; the zeros are equal.\<close>

fun flt :: "float \<Rightarrow> float \<Rightarrow> bool" where
  "flt NaN _ = False"
| "flt _ NaN = False"
| "flt (Inf s) (Inf t) = (s \<and> \<not> t)"
| "flt (Inf s) (Fin _ _ _) = s"
| "flt (Fin _ _ _) (Inf t) = (\<not> t)"
| "flt (Fin s m e) (Fin t n g) =
     (let x = min e g
      in signed s (m * 2 ^ nat (e - x)) < signed t (n * 2 ^ nat (g - x)))"

definition fgt :: "float \<Rightarrow> float \<Rightarrow> bool" where
  "fgt a b = flt b a"

fun feq :: "float \<Rightarrow> float \<Rightarrow> bool" where
  "feq NaN _ = False"
| "feq _ NaN = False"
| "feq (Inf s) (Inf t) = (s = t)"
| "feq (Inf _) (Fin _ _ _) = False"
| "feq (Fin _ _ _) (Inf _) = False"
| "feq (Fin s m e) (Fin t n g) =
     (let x = min e g
      in signed s (m * 2 ^ nat (e - x)) = signed t (n * 2 ^ nat (g - x)))"

text \<open>
  A literal of the source, such as \<open>0.15f\<close>, is the float nearest to the decimal:
  \<open>float_of_ratio a b\<close> is the float nearest to \<open>a / b\<close>.
\<close>

definition float_of_ratio :: "int \<Rightarrow> nat \<Rightarrow> float" where
  "float_of_ratio a b =
     (if a = 0 then fzero False else round_ratio (a < 0) (nat \<bar>a\<bar>) b 0)"

text \<open>The number a finite float stands for (0 for the others, which the theorems exclude).\<close>

definition valof :: "float \<Rightarrow> rat" where
  "valof a = (case a of
                Fin s m e \<Rightarrow> (if 0 \<le> e then of_int (signed s m) * 2 ^ nat e
                              else of_int (signed s m) / 2 ^ nat (- e))
              | _ \<Rightarrow> 0)"

definition is_finite :: "float \<Rightarrow> bool" where
  "is_finite a = (case a of Fin _ _ _ \<Rightarrow> True | _ \<Rightarrow> False)"

text \<open>
  The 32 bits of a float: sign, biased exponent and fraction (for a NaN, the quiet NaN with
  an empty payload).
\<close>

definition float_bits :: "float \<Rightarrow> 32 word" where
  "float_bits a =
     (case a of
        NaN \<Rightarrow> 0x7FC00000
      | Inf s \<Rightarrow> (if s then 0xFF800000 else 0x7F800000)
      | Fin s m e \<Rightarrow>
          (if s then 0x80000000 else 0)
          + (if m < 2 ^ 23 then of_nat m else of_nat (nat (e + 150) * 2 ^ 23 + (m - 2 ^ 23))))"

text \<open>\<open>std::max\<close> of an initializer list: the leftmost of the greatest, found with \<open><\<close>.\<close>

definition std_max :: "float \<Rightarrow> float list \<Rightarrow> float" where
  "std_max a bs = foldl (\<lambda>largest b. if flt largest b then b else largest) a bs"


section \<open>The data of \<open>Source.cpp\<close>\<close>

text \<open>\<open>struct Point { float x, y, z; }\<close>, \<open>glm::vec3\<close> and \<open>struct Vertex\<close>.\<close>

record Point =
  px :: float
  py :: float
  pz :: float

record vec3 =
  vx :: float
  vy :: float
  vz :: float

record Vertex =
  position :: vec3
  normal :: vec3

type_synonym u32 = "32 word"

text \<open>
  What the functions write to \<open>std::cout\<close> and \<open>std::cerr\<close>, in order:
  \<^item> \<open>PointsNormalized\<close>: "Points normalized to range [-1, 1]." (cout);
  \<^item> \<open>NotEnoughPoints\<close>: "Not enough points to create a mesh." (cerr);
  \<^item> \<open>RemovedTriangle a b c d01 d12 d20\<close>: "Removed triangle: a, b, c | Edges: d01, d12, d20" (cout);
  \<^item> \<open>FilteredCompleted n\<close>: "Filtered triangulation completed. Remaining triangles: n" (cout).
\<close>

datatype event =
    PointsNormalized
  | NotEnoughPoints
  | RemovedTriangle u32 u32 u32 float float float
  | FilteredCompleted nat

text \<open>
  \<open>operator[]\<close> of \<open>std::vector\<close> outside the vector is undefined behaviour; the model stops
  with \<open>OutOfBounds\<close> there.
\<close>

datatype fault = OutOfBounds


section \<open>The functions of glm that the source calls\<close>

text \<open>
  glm is a header-only library outside the repository. These are its generic definitions
  for \<open>vec3\<close> of \<open>float\<close>: \<open>dot\<close> multiplies componentwise and adds left to right,
  \<open>length v = sqrt (dot v v)\<close>, \<open>distance p0 p1 = length (p1 - p0)\<close>,
  \<open>inversesqrt x = 1 / sqrt x\<close> and \<open>normalize v = v * inversesqrt (dot v v)\<close>.
\<close>

definition vec3_of :: "float \<Rightarrow> float \<Rightarrow> float \<Rightarrow> vec3" where
  "vec3_of a b c = \<lparr>vx = a, vy = b, vz = c\<rparr>"

definition vec3_splat :: "float \<Rightarrow> vec3" where
  "vec3_splat a = vec3_of a a a"

definition vec3_add :: "vec3 \<Rightarrow> vec3 \<Rightarrow> vec3" where
  "vec3_add a b = vec3_of (fadd (vx a) (vx b)) (fadd (vy a) (vy b)) (fadd (vz a) (vz b))"

definition vec3_sub :: "vec3 \<Rightarrow> vec3 \<Rightarrow> vec3" where
  "vec3_sub a b = vec3_of (fsub (vx a) (vx b)) (fsub (vy a) (vy b)) (fsub (vz a) (vz b))"

definition vec3_scale :: "vec3 \<Rightarrow> float \<Rightarrow> vec3" where
  "vec3_scale a k = vec3_of (fmul (vx a) k) (fmul (vy a) k) (fmul (vz a) k)"

definition glm_dot :: "vec3 \<Rightarrow> vec3 \<Rightarrow> float" where
  "glm_dot a b = fadd (fadd (fmul (vx a) (vx b)) (fmul (vy a) (vy b))) (fmul (vz a) (vz b))"

definition glm_length :: "vec3 \<Rightarrow> float" where
  "glm_length v = fsqrt (glm_dot v v)"

definition glm_distance :: "vec3 \<Rightarrow> vec3 \<Rightarrow> float" where
  "glm_distance p0 p1 = glm_length (vec3_sub p1 p0)"

definition glm_cross :: "vec3 \<Rightarrow> vec3 \<Rightarrow> vec3" where
  "glm_cross a b =
     vec3_of (fsub (fmul (vy a) (vz b)) (fmul (vy b) (vz a)))
             (fsub (fmul (vz a) (vx b)) (fmul (vz b) (vx a)))
             (fsub (fmul (vx a) (vy b)) (fmul (vx b) (vy a)))"

definition glm_inversesqrt :: "float \<Rightarrow> float" where
  "glm_inversesqrt a = fdiv (float_of_ratio 1 1) (fsqrt a)"

definition glm_normalize :: "vec3 \<Rightarrow> vec3" where
  "glm_normalize v = vec3_scale v (glm_inversesqrt (glm_dot v v))"


section \<open>\<open>normalizePoints\<close>\<close>

record bounds =
  minX :: float
  maxX :: float
  minY :: float
  maxY :: float
  minZ :: float
  maxZ :: float

text \<open>The body of the first loop: six independent tests, in the order of the source.\<close>

definition bounds_step :: "bounds \<Rightarrow> Point \<Rightarrow> bounds" where
  "bounds_step b p =
     (let b = (if flt (px p) (minX b) then b\<lparr>minX := px p\<rparr> else b);
          b = (if fgt (px p) (maxX b) then b\<lparr>maxX := px p\<rparr> else b);
          b = (if flt (py p) (minY b) then b\<lparr>minY := py p\<rparr> else b);
          b = (if fgt (py p) (maxY b) then b\<lparr>maxY := py p\<rparr> else b);
          b = (if flt (pz p) (minZ b) then b\<lparr>minZ := pz p\<rparr> else b);
          b = (if fgt (pz p) (maxZ b) then b\<lparr>maxZ := pz p\<rparr> else b)
      in b)"

definition find_bounds :: "Point list \<Rightarrow> bounds" where
  "find_bounds points =
     foldl bounds_step
       \<lparr>minX = px (hd points), maxX = px (hd points),
        minY = py (hd points), maxY = py (hd points),
        minZ = pz (hd points), maxZ = pz (hd points)\<rparr>
       points"

definition center_of :: "float \<Rightarrow> float \<Rightarrow> float" where
  "center_of lo hi = fdiv (fadd lo hi) (float_of_ratio 2 1)"

definition scale_of :: "bounds \<Rightarrow> float" where
  "scale_of b =
     (let scale = fdiv (std_max (fsub (maxX b) (minX b))
                                [fsub (maxY b) (minY b), fsub (maxZ b) (minZ b)])
                       (float_of_ratio 2 1)
      in if feq scale (float_of_ratio 0 1) then float_of_ratio 1 1 else scale)"

definition normalize_point :: "bounds \<Rightarrow> float \<Rightarrow> Point \<Rightarrow> Point" where
  "normalize_point b scale p =
     \<lparr>px = fdiv (fsub (px p) (center_of (minX b) (maxX b))) scale,
      py = fdiv (fsub (py p) (center_of (minY b) (maxY b))) scale,
      pz = fdiv (fsub (pz p) (center_of (minZ b) (maxZ b))) scale\<rparr>"

text \<open>
  The function returns \<open>void\<close>; its results are the vector it was given by reference and
  what it printed. \<open>hd points\<close> is \<open>points[0]\<close>, read only when the vector is not empty.
\<close>

definition normalizePoints :: "Point list \<Rightarrow> Point list \<times> event list" where
  "normalizePoints points =
     (if points = [] then (points, [])
      else let b = find_bounds points;
               scale = scale_of b
           in (map (normalize_point b scale) points, [PointsNormalized]))"


section \<open>\<open>triangulateSimplified\<close>\<close>

definition zero_vertex :: Vertex where
  "zero_vertex = \<lparr>position = vec3_splat (float_of_ratio 0 1), normal = vec3_splat (float_of_ratio 0 1)\<rparr>"

text \<open>\<open>vertices.resize(n)\<close>: the first \<open>n\<close> elements, padded with value-initialised ones.\<close>

definition resize :: "nat \<Rightarrow> Vertex list \<Rightarrow> Vertex list" where
  "resize n vertices = take n vertices @ replicate (n - length vertices) zero_vertex"

definition vertex_of_point :: "Point \<Rightarrow> Vertex" where
  "vertex_of_point p =
     \<lparr>position = vec3_of (px p) (py p) (pz p), normal = vec3_splat (float_of_ratio 0 1)\<rparr>"

text \<open>The loop \<open>for (i = 0; i < points.size(); ++i)\<close> that writes \<open>vertices[i]\<close>.\<close>

definition fill_vertices :: "Point list \<Rightarrow> Vertex list \<Rightarrow> Vertex list" where
  "fill_vertices points vertices =
     fold (\<lambda>i vs. vs[i := vertex_of_point (points ! i)]) [0..<length points] vertices"

text \<open>
  The comparison handed to \<open>std::sort\<close>, and the sort as an insertion sort under it.
  \<open>std::sort\<close> fixes neither the algorithm nor the order of equivalent elements, and asks
  for a strict weak ordering, which this comparison is as long as no coordinate is a NaN;
  it rearranges the copy in place and never changes its size. Only the length of the
  sorted copy reaches the output of \<open>triangulateSimplified\<close>.
\<close>

definition point_less :: "Point \<Rightarrow> Point \<Rightarrow> bool" where
  "point_less a b = (flt (px a) (px b) \<or> (feq (px a) (px b) \<and> flt (pz a) (pz b)))"

fun insert_point :: "Point \<Rightarrow> Point list \<Rightarrow> Point list" where
  "insert_point p [] = [p]"
| "insert_point p (q # qs) = (if point_less q p then q # insert_point p qs else p # q # qs)"

definition sort_points :: "Point list \<Rightarrow> Point list" where
  "sort_points points = foldr insert_point points []"

text \<open>
  The loop \<open>for (i = 0; i < sortedPoints.size() - 2; ++i)\<close>. It reads
  \<open>sortedPoints[i]\<close>, \<open>[i + 1]\<close> and \<open>[i + 2]\<close> into locals that are never used, and appends
  \<open>i\<close>, \<open>i + 1\<close> and \<open>i + 2\<close>, each a \<open>size_t\<close> converted to \<open>unsigned int\<close>. The function
  has returned before this loop when there are fewer than three points, so the unsigned
  subtraction does not wrap.
\<close>

definition emit_candidates :: "Point list \<Rightarrow> u32 list \<Rightarrow> u32 list" where
  "emit_candidates sortedPoints indices =
     fold (\<lambda>i ixs. ixs @ [of_nat i, of_nat (i + 1), of_nat (i + 2)])
          [0..<length sortedPoints - 2] indices"

definition maxEdgeLength :: float where
  "maxEdgeLength = float_of_ratio 15 100"

definition edges_ok :: "Vertex list \<Rightarrow> u32 \<Rightarrow> u32 \<Rightarrow> u32 \<Rightarrow> bool" where
  "edges_ok vertices a b c =
     (let v0 = position (vertices ! unat a);
          v1 = position (vertices ! unat b);
          v2 = position (vertices ! unat c);
          d01 = glm_distance v0 v1;
          d12 = glm_distance v1 v2;
          d20 = glm_distance v2 v0
      in flt d01 maxEdgeLength \<and> flt d12 maxEdgeLength \<and> flt d20 maxEdgeLength)"

definition removed_event :: "Vertex list \<Rightarrow> u32 \<Rightarrow> u32 \<Rightarrow> u32 \<Rightarrow> event" where
  "removed_event vertices a b c =
     (let v0 = position (vertices ! unat a);
          v1 = position (vertices ! unat b);
          v2 = position (vertices ! unat c)
      in RemovedTriangle a b c (glm_distance v0 v1) (glm_distance v1 v2) (glm_distance v2 v0))"

text \<open>
  The loop \<open>for (i = 0; i < indices.size(); i += 3)\<close> of the filter, with the vector of kept
  indices and the output so far.
\<close>

function filter_loop ::
  "Vertex list \<Rightarrow> u32 list \<Rightarrow> nat \<Rightarrow> u32 list \<Rightarrow> event list \<Rightarrow> fault + (u32 list \<times> event list)"
where
  "filter_loop vertices indices i filteredIndices out =
     (if i < length indices then
        (if i + 2 < length indices
            \<and> unat (indices ! i) < length vertices
            \<and> unat (indices ! (i + 1)) < length vertices
            \<and> unat (indices ! (i + 2)) < length vertices
         then
           (if edges_ok vertices (indices ! i) (indices ! (i + 1)) (indices ! (i + 2))
            then filter_loop vertices indices (i + 3)
                   (filteredIndices @ [indices ! i, indices ! (i + 1), indices ! (i + 2)]) out
            else filter_loop vertices indices (i + 3) filteredIndices
                   (out @ [removed_event vertices (indices ! i) (indices ! (i + 1)) (indices ! (i + 2))]))
         else Inl OutOfBounds)
      else Inr (filteredIndices, out))"
  by pat_completeness auto
termination
  by (relation "measure (\<lambda>(vertices, indices, i, filteredIndices, out). length indices - i)") auto

declare filter_loop.simps [simp del]

text \<open>
  \<open>vertices\<close> and \<open>indices\<close> are reference parameters: the function gets their contents and
  leaves new ones. \<open>main\<close> passes both empty.
\<close>

definition triangulateSimplified ::
  "Point list \<Rightarrow> Vertex list \<Rightarrow> u32 list \<Rightarrow> fault + (Vertex list \<times> u32 list \<times> event list)"
where
  "triangulateSimplified points vertices indices =
     (if length points < 3 then Inr (vertices, indices, [NotEnoughPoints])
      else let vertices = fill_vertices points (resize (length points) vertices);
               sortedPoints = sort_points points;
               indices = emit_candidates sortedPoints indices
           in case filter_loop vertices indices 0 [] [] of
                Inl f \<Rightarrow> Inl f
              | Inr (filteredIndices, out) \<Rightarrow>
                  Inr (vertices, filteredIndices,
                       out @ [FilteredCompleted (length filteredIndices div 3)]))"

text \<open>
  The triangulator without the sort, for comparison: no sorted copy is built and the
  emission loop runs over the positions \<open>0\<close> to \<open>N - 3\<close> of the original sequence.
\<close>

definition triangulate_without_sort ::
  "Point list \<Rightarrow> Vertex list \<Rightarrow> u32 list \<Rightarrow> fault + (Vertex list \<times> u32 list \<times> event list)"
where
  "triangulate_without_sort points vertices indices =
     (if length points < 3 then Inr (vertices, indices, [NotEnoughPoints])
      else let vertices = fill_vertices points (resize (length points) vertices);
               indices = emit_candidates points indices
           in case filter_loop vertices indices 0 [] [] of
                Inl f \<Rightarrow> Inl f
              | Inr (filteredIndices, out) \<Rightarrow>
                  Inr (vertices, filteredIndices,
                       out @ [FilteredCompleted (length filteredIndices div 3)]))"


section \<open>\<open>calculateNormals\<close>\<close>

definition reset_normal :: "Vertex \<Rightarrow> Vertex" where
  "reset_normal v = v\<lparr>normal := vec3_splat (float_of_ratio 0 1)\<rparr>"

definition add_normal :: "Vertex list \<Rightarrow> nat \<Rightarrow> vec3 \<Rightarrow> Vertex list" where
  "add_normal vertices k n = vertices[k := (vertices ! k)\<lparr>normal := vec3_add (normal (vertices ! k)) n\<rparr>]"

definition face_normal :: "Vertex list \<Rightarrow> u32 \<Rightarrow> u32 \<Rightarrow> u32 \<Rightarrow> vec3" where
  "face_normal vertices a b c =
     (let v0 = position (vertices ! unat a);
          v1 = position (vertices ! unat b);
          v2 = position (vertices ! unat c)
      in glm_normalize (glm_cross (vec3_sub v1 v0) (vec3_sub v2 v0)))"

text \<open>The accumulation loop \<open>for (i = 0; i < indices.size(); i += 3)\<close>.\<close>

function accumulate_loop :: "u32 list \<Rightarrow> nat \<Rightarrow> Vertex list \<Rightarrow> fault + Vertex list" where
  "accumulate_loop indices i vertices =
     (if i < length indices then
        (if i + 2 < length indices
            \<and> unat (indices ! i) < length vertices
            \<and> unat (indices ! (i + 1)) < length vertices
            \<and> unat (indices ! (i + 2)) < length vertices
         then
           (let n = face_normal vertices (indices ! i) (indices ! (i + 1)) (indices ! (i + 2));
                vertices = add_normal vertices (unat (indices ! i)) n;
                vertices = add_normal vertices (unat (indices ! (i + 1))) n;
                vertices = add_normal vertices (unat (indices ! (i + 2))) n
            in accumulate_loop indices (i + 3) vertices)
         else Inl OutOfBounds)
      else Inr vertices)"
  by pat_completeness auto
termination
  by (relation "measure (\<lambda>(indices, i, vertices). length indices - i)") auto

declare accumulate_loop.simps [simp del]

definition normalize_normal :: "Vertex \<Rightarrow> Vertex" where
  "normalize_normal v = v\<lparr>normal := glm_normalize (normal v)\<rparr>"

text \<open>The accumulators: the vertices after the reset and the accumulation loop.\<close>

definition accumulated_normals :: "Vertex list \<Rightarrow> u32 list \<Rightarrow> fault + Vertex list" where
  "accumulated_normals vertices indices = accumulate_loop indices 0 (map reset_normal vertices)"

definition calculateNormals :: "Vertex list \<Rightarrow> u32 list \<Rightarrow> fault + Vertex list" where
  "calculateNormals vertices indices =
     (case accumulated_normals vertices indices of
        Inl f \<Rightarrow> Inl f
      | Inr vertices \<Rightarrow> Inr (map normalize_normal vertices))"


section \<open>Triangles of an index sequence\<close>

text \<open>
  An index sequence of stride 3 read as a list of triangles, and back. A mesh is well formed
  when the length of its index sequence is a multiple of 3 and every index is a position of
  the vertex sequence.
\<close>

fun triples :: "'a list \<Rightarrow> ('a \<times> 'a \<times> 'a) list" where
  "triples (a # b # c # xs) = (a, b, c) # triples xs"
| "triples _ = []"

definition untriple :: "('a \<times> 'a \<times> 'a) list \<Rightarrow> 'a list" where
  "untriple ts = concat (map (\<lambda>(a, b, c). [a, b, c]) ts)"

definition indices_valid :: "Vertex list \<Rightarrow> u32 list \<Rightarrow> bool" where
  "indices_valid vertices indices =
     (length indices mod 3 = 0 \<and> list_all (\<lambda>ix. unat ix < length vertices) indices)"


section \<open>Exact values\<close>

text \<open>
  The exact numbers that the computed floats are compared with. \<open>rounded r x\<close> says that the
  float \<open>r\<close> is a correct rounding of the number \<open>x\<close>: infinite only if \<open>x\<close> is at least
  \<open>2^127\<close> in magnitude, and otherwise of the sign of \<open>x\<close> and within the relative error
  \<open>2^-24\<close> of it, or within \<open>2^-150\<close>, half the spacing of the subnormal floats.
\<close>

definition rounded :: "float \<Rightarrow> rat \<Rightarrow> bool" where
  "rounded r x =
     (case r of
        NaN \<Rightarrow> False
      | Inf s \<Rightarrow> 2 ^ 127 \<le> \<bar>x\<bar>
      | Fin s q t \<Rightarrow> q < 2 ^ 24 \<and> - 149 \<le> t \<and> t \<le> 104 \<and> 0 \<le> valof r * x
                     \<and> \<bar>valof r - x\<bar> \<le> max (\<bar>x\<bar> / 2 ^ 24) (1 / 2 ^ 150))"

text \<open>
  A vector of three finite floats, the square of its Euclidean length and the square of the
  Euclidean distance of two positions, in exact arithmetic.
\<close>

definition finite_vec :: "vec3 \<Rightarrow> bool" where
  "finite_vec v \<longleftrightarrow> is_finite (vx v) \<and> is_finite (vy v) \<and> is_finite (vz v)"

definition sq_norm :: "vec3 \<Rightarrow> rat" where
  "sq_norm v = (valof (vx v))\<^sup>2 + (valof (vy v))\<^sup>2 + (valof (vz v))\<^sup>2"

definition sq_dist :: "vec3 \<Rightarrow> vec3 \<Rightarrow> rat" where
  "sq_dist p q = (valof (vx q) - valof (vx p))\<^sup>2 + (valof (vy q) - valof (vy p))\<^sup>2
     + (valof (vz q) - valof (vz p))\<^sup>2"

text \<open>
  The two tests on a triangle \<open>(a, b, c)\<close> of a vertex sequence that the theorems on the
  filter compare: the three edge lengths computed by \<open>glm::distance\<close> are finite and less
  than 0.15, and the three positions are finite with the three Euclidean edge lengths less
  than \<open>r\<close>. The edges are taken as the source takes them: from \<open>a\<close> to \<open>b\<close>, from \<open>b\<close> to
  \<open>c\<close> and from \<open>c\<close> to \<open>a\<close>.
\<close>

definition computed_edges_below :: "Vertex list \<Rightarrow> u32 \<times> u32 \<times> u32 \<Rightarrow> bool" where
  "computed_edges_below vertices t =
     (case t of (a, b, c) \<Rightarrow>
        (let d01 = glm_distance (position (vertices ! unat a)) (position (vertices ! unat b));
             d12 = glm_distance (position (vertices ! unat b)) (position (vertices ! unat c));
             d20 = glm_distance (position (vertices ! unat c)) (position (vertices ! unat a))
         in is_finite d01 \<and> valof d01 < 15 / 100
          \<and> is_finite d12 \<and> valof d12 < 15 / 100
          \<and> is_finite d20 \<and> valof d20 < 15 / 100))"

definition exact_edges_below :: "rat \<Rightarrow> Vertex list \<Rightarrow> u32 \<times> u32 \<times> u32 \<Rightarrow> bool" where
  "exact_edges_below r vertices t =
     (case t of (a, b, c) \<Rightarrow>
        (let p0 = position (vertices ! unat a);
             p1 = position (vertices ! unat b);
             p2 = position (vertices ! unat c)
         in finite_vec p0 \<and> finite_vec p1 \<and> finite_vec p2
          \<and> sq_dist p0 p1 < r\<^sup>2 \<and> sq_dist p1 p2 < r\<^sup>2 \<and> sq_dist p2 p0 < r\<^sup>2))"


section \<open>Inputs used in the evaluations\<close>

text \<open>\<open>point_of (a, b) (c, d) (e, f)\<close> is the point whose coordinates are the floats nearest to
  \<open>a / b\<close>, \<open>c / d\<close> and \<open>e / f\<close>.\<close>

definition point_of :: "int \<times> nat \<Rightarrow> int \<times> nat \<Rightarrow> int \<times> nat \<Rightarrow> Point" where
  "point_of a b c =
     \<lparr>px = float_of_ratio (fst a) (snd a), py = float_of_ratio (fst b) (snd b),
      pz = float_of_ratio (fst c) (snd c)\<rparr>"

definition nan_vec :: vec3 where
  "nan_vec = vec3_splat NaN"

text \<open>Two points.\<close>

definition two_points :: "Point list" where
  "two_points = [point_of (0, 1) (0, 1) (0, 1), point_of (1, 1) (0, 1) (0, 1)]"

text \<open>Two samples whose x coordinates are 1 and the next float after 1, \<open>1 + 2^-23\<close>.\<close>

definition close_pair :: "Point list" where
  "close_pair = [point_of (1, 1) (0, 1) (0, 1), point_of (8388609, 8388608) (0, 1) (0, 1)]"

text \<open>Two samples 1.5 apart at the magnitude of a UTM northing, 6600000 and 6600001.5.\<close>

definition utm_pair :: "Point list" where
  "utm_pair = [point_of (6600000, 1) (0, 1) (0, 1), point_of (13200003, 2) (0, 1) (0, 1)]"

text \<open>The unit square on the XZ plane: (0,0,0), (1,0,0), (1,0,1), (0,0,1).\<close>

definition unit_square :: "Point list" where
  "unit_square = [point_of (0, 1) (0, 1) (0, 1), point_of (1, 1) (0, 1) (0, 1),
                  point_of (1, 1) (0, 1) (1, 1), point_of (0, 1) (0, 1) (1, 1)]"

text \<open>The same square after normalisation: (-1,0,-1), (1,0,-1), (1,0,1), (-1,0,1).\<close>

definition centred_square :: "Point list" where
  "centred_square = [point_of (- 1, 1) (0, 1) (- 1, 1), point_of (1, 1) (0, 1) (- 1, 1),
                     point_of (1, 1) (0, 1) (1, 1), point_of (- 1, 1) (0, 1) (1, 1)]"

text \<open>
  A flat cloud: four points of a square of side 1/16 at the origin, in the order of a
  strip, and the two corners (1,0,1) and (-1,0,-1). Its bounding box is centred at the
  origin with half extent 1, so normalisation leaves it as it is.
\<close>

definition strip_example :: "Point list" where
  "strip_example = [point_of (0, 1) (0, 1) (0, 1), point_of (1, 16) (0, 1) (0, 1),
                    point_of (0, 1) (0, 1) (1, 16), point_of (1, 16) (0, 1) (1, 16),
                    point_of (1, 1) (0, 1) (1, 1), point_of (- 1, 1) (0, 1) (- 1, 1)]"


text \<open>
  Two triangles with a corner at the origin and one at (1/16, 0, 1/16). In the first the
  third corner is at the distance 0.15000000132 from the origin, in the second at the
  distance 0.14999999959.
\<close>

definition long_edge :: "Point list" where
  "long_edge = [point_of (0, 1) (0, 1) (0, 1), point_of (4097, 32768) (0, 1) (11122569, 134217728),
                point_of (1, 16) (0, 1) (1, 16)]"

definition short_edge :: "Point list" where
  "short_edge = [point_of (0, 1) (0, 1) (0, 1), point_of (1, 8) (0, 1) (5564373, 67108864),
                 point_of (1, 16) (0, 1) (1, 16)]"


section \<open>Evaluation rules\<close>

lemmas float_eval = round_ratio_def floor_log2_ratio_def nearest_even_def pack_def
  float_of_ratio_def signed_def fsub_def fneg_def fzero_def fgt_def std_max_def
  bit_length.simps isqrt.simps Let_def

lemmas glm_eval = vec3_of_def vec3_splat_def vec3_add_def vec3_sub_def vec3_scale_def
  glm_dot_def glm_length_def glm_distance_def glm_cross_def glm_inversesqrt_def
  glm_normalize_def nan_vec_def

lemmas normalize_eval = normalizePoints_def find_bounds_def bounds_step_def center_of_def
  scale_of_def normalize_point_def point_of_def

lemmas tri_eval = triangulateSimplified_def triangulate_without_sort_def fill_vertices_def
  resize_def vertex_of_point_def zero_vertex_def sort_points_def point_less_def
  emit_candidates_def maxEdgeLength_def edges_ok_def removed_event_def filter_loop.simps
  point_of_def

lemmas normals_eval = calculateNormals_def accumulated_normals_def reset_normal_def
  add_normal_def face_normal_def normalize_normal_def accumulate_loop.simps
  vertex_of_point_def point_of_def


section \<open>The float operations\<close>

text \<open>
  The model against bit patterns of binary32 that are known: 0.15f, 1, the float after 1,
  6600000, -2, the square root of 2, 1/3, 0.1f + 0.2f (which is 0.3f), 16777216 + 1 (which
  is 16777216), an overflow, the least subnormal number, its half (which is 0), 1/0, 0/0
  and 1 - 1.
\<close>

lemma binary32_bit_patterns:
  "float_bits (float_of_ratio 15 100) = 0x3E19999A"
  "float_bits (float_of_ratio 1 1) = 0x3F800000"
  "float_bits (float_of_ratio 8388609 8388608) = 0x3F800001"
  "float_bits (float_of_ratio 6600000 1) = 0x4AC96A80"
  "float_bits (float_of_ratio (- 2) 1) = 0xC0000000"
  "float_bits (fsqrt (float_of_ratio 2 1)) = 0x3FB504F3"
  "float_bits (fdiv (float_of_ratio 1 1) (float_of_ratio 3 1)) = 0x3EAAAAAB"
  "float_bits (fadd (float_of_ratio 1 10) (float_of_ratio 2 10)) = 0x3E99999A"
  "float_bits (fadd (float_of_ratio 16777216 1) (float_of_ratio 1 1)) = 0x4B800000"
  "float_bits (fmul (float_of_ratio (2 ^ 64) 1) (float_of_ratio (2 ^ 64) 1)) = 0x7F800000"
  "float_bits (float_of_ratio 1 (2 ^ 149)) = 0x00000001"
  "float_bits (fdiv (float_of_ratio 1 (2 ^ 149)) (float_of_ratio 2 1)) = 0x00000000"
  "float_bits (fdiv (float_of_ratio 1 1) (float_of_ratio 0 1)) = 0x7F800000"
  "float_bits (fdiv (float_of_ratio 0 1) (float_of_ratio 0 1)) = 0x7FC00000"
  "float_bits (fsub (float_of_ratio 1 1) (float_of_ratio 1 1)) = 0x00000000"
  by (simp_all add: float_bits_def float_eval cong: let_weak_cong)

lemma nearest_even_close:
  assumes "0 < den"
  shows "2 * \<bar>int (nearest_even num den) * int den - int num\<bar> \<le> int den"
proof -
  let ?f = "num div den" and ?r = "num mod den"
  have n: "int num = int ?f * int den + int ?r"
    by (metis div_mult_mod_eq of_nat_add of_nat_mult)
  have r: "?r < den" using assms by simp
  consider (down) "2 * ?r < den" | (up) "den < 2 * ?r" | (tie) "2 * ?r = den" by linarith
  then show ?thesis
  proof cases
    case down
    then have "nearest_even num den = ?f" by (simp add: nearest_even_def)
    then show ?thesis using down n by simp
  next
    case up
    then have e: "nearest_even num den = ?f + 1" by (simp add: nearest_even_def)
    have "int (nearest_even num den) * int den - int num = int den - int ?r"
      unfolding e n by (simp add: algebra_simps)
    then show ?thesis using up r by simp
  next
    case tie
    then have "nearest_even num den = ?f \<or> nearest_even num den = ?f + 1"
      by (simp add: nearest_even_def Let_def)
    then show ?thesis
    proof
      assume "nearest_even num den = ?f"
      then show ?thesis using tie n by simp
    next
      assume e: "nearest_even num den = ?f + 1"
      have "int (nearest_even num den) * int den - int num = int den - int ?r"
        unfolding e n by (simp add: algebra_simps)
      then show ?thesis using tie r by simp
    qed
  qed
qed

lemma nearest_even_tie:
  "2 * (num mod den) = den \<Longrightarrow> even (nearest_even num den)"
  by (simp add: nearest_even_def Let_def)

lemma bit_length_bounds: "0 < n \<Longrightarrow> 2 ^ (bit_length n - 1) \<le> n \<and> n < 2 ^ bit_length n"
proof (induction n rule: bit_length.induct)
  case (1 n)
  show ?case
  proof (cases "n div 2 = 0")
    case True
    with "1.prems" have "n = 1" by (simp add: div_eq_0_iff) 
    then show ?thesis by (simp add: bit_length.simps)
  next
    case False
    then have pos: "0 < n div 2" by simp
    from "1.prems" have n0: "n \<noteq> 0" by simp
    from "1.IH" [OF n0 pos] have lo: "2 ^ (bit_length (n div 2) - 1) \<le> n div 2"
      and hi: "n div 2 < 2 ^ bit_length (n div 2)" by simp_all
    have bl: "bit_length n = Suc (bit_length (n div 2))"
      using n0 by (subst bit_length.simps) simp
    have bpos: "0 < bit_length (n div 2)"
      using pos by (subst bit_length.simps) simp
    have "2 ^ (bit_length n - 1) = 2 * 2 ^ (bit_length (n div 2) - 1)"
      using bpos by (simp add: bl flip: power_Suc)
    also have "\<dots> \<le> 2 * (n div 2)" using lo by simp
    also have "\<dots> \<le> n" by simp
    finally have l: "2 ^ (bit_length n - 1) \<le> n" .
    have "n < 2 * (n div 2) + 2" by presburger
    also have "\<dots> \<le> 2 * 2 ^ bit_length (n div 2)" using hi by simp
    finally have "n < 2 ^ bit_length n" by (simp add: bl)
    with l show ?thesis by simp
  qed
qed

lemma isqrt_bounds: "isqrt n * isqrt n \<le> n \<and> n < (isqrt n + 1) * (isqrt n + 1)"
proof (induction n rule: isqrt.induct)
  case (1 n)
  show ?case
  proof (cases "n < 2")
    case True
    then have e: "isqrt n = n" by (subst isqrt.simps) simp
    from True have "n = 0 \<or> n = 1" by auto
    then show ?thesis unfolding e by auto
  next
    case False
    let ?r = "2 * isqrt (n div 4)"
    from "1.IH" [OF False] have lo: "isqrt (n div 4) * isqrt (n div 4) \<le> n div 4"
      and hi: "n div 4 < (isqrt (n div 4) + 1) * (isqrt (n div 4) + 1)" by simp_all
    have r_lo: "?r * ?r \<le> n"
    proof -
      have "?r * ?r = 4 * (isqrt (n div 4) * isqrt (n div 4))" by simp
      also have "\<dots> \<le> 4 * (n div 4)" using lo by simp
      also have "\<dots> \<le> n" by simp
      finally show ?thesis .
    qed
    have r_hi: "n < (?r + 2) * (?r + 2)"
    proof -
      have "n < 4 * (n div 4) + 4" by presburger
      also have "\<dots> \<le> 4 * ((isqrt (n div 4) + 1) * (isqrt (n div 4) + 1))"
        using hi by simp
      also have "\<dots> = (?r + 2) * (?r + 2)" by (simp add: algebra_simps)
      finally show ?thesis .
    qed
    have eq: "isqrt n = (if (?r + 1) * (?r + 1) \<le> n then ?r + 1 else ?r)"
      using False by (subst isqrt.simps) (simp add: Let_def)
    show ?thesis
    proof (cases "(?r + 1) * (?r + 1) \<le> n")
      case True
      then show ?thesis using r_hi by (simp add: eq)
    next
      case False
      then show ?thesis using r_lo by (simp add: eq)
    qed
  qed
qed

text \<open>The significand that \<open>fsqrt\<close> packs has 24 bits, or is \<open>2^24\<close> after a carry.\<close>

lemma sqrt_significand:
  assumes N: "2 ^ 52 \<le> N"
  defines "r \<equiv> isqrt N"
  defines "k \<equiv> bit_length r - 24"
  defines "f \<equiv> r div 2 ^ k"
  shows "2 ^ 23 \<le> f \<and> f < 2 ^ 24"
proof -
  have "N < (r + 1) * (r + 1)" unfolding r_def using isqrt_bounds by blast
  with N have "(2 ^ 26) * (2 ^ 26) < (r + 1) * (r + 1)" by simp
  then have "2 ^ 26 < r + 1"
    using mult_less_le_imp_less [of "r + 1" "2 ^ 26" "r + 1" "2 ^ 26"] by (meson not_less zero_le mult_le_mono leD)
  then have r26: "2 ^ 26 \<le> r" by simp
  then have rpos: "0 < r" by (meson less_le_trans zero_less_numeral zero_less_power)
  from bit_length_bounds [OF rpos] have lo: "2 ^ (bit_length r - 1) \<le> r"
    and hi: "r < 2 ^ bit_length r" by simp_all
  have p: "2 ^ 26 < (2::nat) ^ bit_length r" using r26 hi by simp
  have L: "26 < bit_length r"
    by (rule power_less_imp_less_exp [of "2::nat"]) (simp, rule p)
  then have bl: "bit_length r = k + 24" "bit_length r - 1 = k + 23" by (simp_all add: k_def)
  have "2 ^ 23 * 2 ^ k \<le> r" using lo by (simp add: bl power_add mult.commute)
  then have "2 ^ 23 \<le> f" unfolding f_def by (simp add: less_eq_div_iff_mult_less_eq)
  moreover have "r < 2 ^ 24 * 2 ^ k" using hi by (simp add: bl power_add mult.commute)
  then have "f < 2 ^ 24" unfolding f_def by (simp add: less_mult_imp_div_less)
  ultimately show ?thesis by simp
qed


lemma maxEdgeLength_value: "maxEdgeLength = Fin False 10066330 (- 26)"
  by (simp add: maxEdgeLength_def float_eval cong: let_weak_cong)

lemma fsqrt_cases:
  "fsqrt x = NaN \<or> fsqrt x = Inf False \<or> (\<exists>s. fsqrt x = Fin s 0 (- 149))
   \<or> (\<exists>q t. fsqrt x = Fin False q t \<and> 2 ^ 23 \<le> q \<and> q < 2 ^ 24)"
proof (cases x)
  case NaN
  then show ?thesis by simp
next
  case (Inf s)
  then show ?thesis by simp
next
  case (Fin s m e)
  show ?thesis
  proof (cases "m = 0 \<or> s")
    case True
    then show ?thesis using Fin by (auto simp: fzero_def)
  next
    case False
    define p :: nat where "p = (if even e then 52 else 53)"
    define N where "N = m * 2 ^ p"
    define r where "r = isqrt N"
    define k where "k = bit_length r - 24"
    define f where "f = r div 2 ^ k"
    define mid where "mid = (2 * f + 1) * 2 ^ (k - 1)"
    define q where "q = (if N < mid * mid then f
                         else if mid * mid < N then f + 1
                         else if even f then f else f + 1)"
    have eq: "fsqrt x = pack False q ((e - int p) div 2 + int k)"
      using False unfolding Fin q_def mid_def f_def k_def r_def N_def p_def
      by (simp add: Let_def)
    have "2 ^ 52 \<le> (2::nat) ^ p" by (simp add: p_def)
    moreover have "1 \<le> m" using False by simp
    ultimately have "2 ^ 52 \<le> N"
      unfolding N_def by (metis mult_le_mono nat_mult_1)
    from sqrt_significand [OF this] have fb: "2 ^ 23 \<le> f" "f < 2 ^ 24"
      by (simp_all add: f_def k_def r_def)
    have "q = f \<or> q = f + 1" by (simp add: q_def)
    with fb have qb: "2 ^ 23 \<le> q" "q \<le> 2 ^ 24" by auto
    show ?thesis
    proof (cases "q = 2 ^ 24")
      case True
      then show ?thesis unfolding eq by (simp add: pack_def)
    next
      case False
      with qb have "q < 2 ^ 24" by simp
      with qb(1) False show ?thesis unfolding eq by (auto simp: pack_def)
    qed
  qed
qed

lemma flt_positive:
  "flt (Fin False m e) (Fin False n g)
     \<longleftrightarrow> m * 2 ^ nat (e - min e g) < n * 2 ^ nat (g - min e g)"
  by (simp add: signed_def Let_def del: of_nat_mult of_nat_power)

lemma below_threshold:
  assumes lo: "2 ^ 23 \<le> q" and hi: "q < 2 ^ 24"
  shows "flt (Fin False q t) maxEdgeLength \<longleftrightarrow> valof (Fin False q t) < 15 / 100"
proof (cases "t \<le> - 26")
  case True
  define n where "n = nat (- 26 - t)"
  have t: "t = - 26 - int n" using True by (simp add: n_def)
  have m: "min t (- 26) = t" using True by simp
  have f: "flt (Fin False q t) maxEdgeLength \<longleftrightarrow> q < 10066330 * 2 ^ n"
    unfolding maxEdgeLength_value flt_positive m by (simp add: n_def)
  have v: "valof (Fin False q t) = of_nat q / (2 ^ 26 * 2 ^ n)"
    using True by (simp add: valof_def signed_def t nat_add_distrib power_add)
  show ?thesis
  proof (cases n)
    case 0
    have "(of_nat q :: rat) / 2 ^ 26 < 15 / 100 \<longleftrightarrow> (of_nat q :: rat) * 5 < 50331648"
      by (simp add: field_simps)
    also have "\<dots> \<longleftrightarrow> (of_nat (q * 5) :: rat) < of_nat 50331648"
      by simp
    also have "\<dots> \<longleftrightarrow> q * 5 < 50331648"
      by (rule of_nat_less_iff)
    also have "\<dots> \<longleftrightarrow> q < 10066330" by linarith
    finally show ?thesis using 0 by (simp add: f v)
  next
    case (Suc j)
    have a: "q < 10066330 * 2 ^ n"
    proof -
      have "q < 10066330 * 2" using hi by simp
      also have "\<dots> \<le> 10066330 * 2 ^ n" unfolding Suc by simp
      finally show ?thesis .
    qed
    have "(of_nat q :: rat) < 2 ^ 24"
      using hi by (metis of_nat_less_iff of_nat_numeral of_nat_power)
    also have "\<dots> \<le> 15 / 100 * (2 ^ 26 * 2)" by simp
    also have "\<dots> \<le> 15 / 100 * (2 ^ 26 * 2 ^ n)"
      unfolding Suc by (intro mult_left_mono) simp_all
    finally have "(of_nat q :: rat) < 15 / 100 * (2 ^ 26 * 2 ^ n)" .
    moreover have "(of_nat q :: rat) / (2 ^ 26 * 2 ^ n) < 15 / 100
        \<longleftrightarrow> (of_nat q :: rat) < 15 / 100 * (2 ^ 26 * 2 ^ n)"
      by (rule pos_divide_less_eq) simp
    ultimately have "valof (Fin False q t) < 15 / 100" unfolding v by blast
    then show ?thesis using a by (simp add: f)
  qed
next
  case False
  define n where "n = nat (t + 26)"
  have npos: "0 < n" using False by (simp add: n_def)
  have m: "min t (- 26) = - 26" using False by simp
  have "flt (Fin False q t) maxEdgeLength \<longleftrightarrow> q * 2 ^ n < 10066330"
    unfolding maxEdgeLength_value flt_positive m by (simp add: n_def)
  moreover have "\<not> q * 2 ^ n < 10066330"
  proof -
    have "2 ^ 23 * 2 \<le> q * 2 ^ n"
      using lo npos by (intro mult_le_mono) (simp_all add: Suc_le_eq self_le_power)
    then show ?thesis by simp
  qed
  moreover have "\<not> valof (Fin False q t) < 15 / 100"
  proof (cases "0 \<le> t")
    case True
    have "(2 ^ 23 :: rat) \<le> of_nat q" using lo by (metis of_nat_le_iff of_nat_numeral of_nat_power)
    also have "\<dots> \<le> of_nat q * 2 ^ nat t" by (simp add: mult_le_cancel_left1)
    finally have q23: "(2 ^ 23 :: rat) \<le> of_nat q * 2 ^ nat t" .
    have v: "valof (Fin False q t) = of_nat q * 2 ^ nat t"
      using True by (simp add: valof_def signed_def)
    show ?thesis unfolding v using q23 by simp
  next
    case neg: False
    define j where "j = nat (- t)"
    have j: "j \<le> 25" using False neg by (simp add: j_def)
    have "(1 / 4 :: rat) = 2 ^ 23 / 2 ^ 25" by simp
    also have "\<dots> \<le> 2 ^ 23 / 2 ^ j"
    proof -
      have "(2 :: rat) ^ j \<le> 2 ^ 25" using j by (intro power_increasing) simp_all
      then show ?thesis by (intro divide_left_mono) (simp_all del: power_numeral)
    qed
    also have "\<dots> \<le> of_nat q / 2 ^ j"
    proof -
      have "(2 ^ 23 :: rat) \<le> of_nat q"
        using lo by (metis of_nat_le_iff of_nat_numeral of_nat_power)
      then show ?thesis by (intro divide_right_mono) simp_all
    qed
    finally have q4: "(1 / 4 :: rat) \<le> of_nat q / 2 ^ j" .
    have v: "valof (Fin False q t) = of_nat q / 2 ^ j"
      using neg by (simp add: valof_def signed_def j_def)
    show ?thesis unfolding v using q4 by linarith
  qed
  ultimately show ?thesis by simp
qed

text \<open>
  A square root is a NaN, the positive infinity, a zero or a positive number with a
  significand of 24 bits; for such a float, to be less than \<open>0.15f\<close> is to be less than 0.15,
  since no float lies between the two.
\<close>

lemma sqrt_below_threshold:
  "flt (fsqrt x) maxEdgeLength \<longleftrightarrow> is_finite (fsqrt x) \<and> valof (fsqrt x) < 15 / 100"
proof -
  consider (nan) "fsqrt x = NaN" | (inf) "fsqrt x = Inf False"
    | (zero) s where "fsqrt x = Fin s 0 (- 149)"
    | (pos) q t where "fsqrt x = Fin False q t" "2 ^ 23 \<le> q" "q < 2 ^ 24"
    using fsqrt_cases [of x] by blast
  then show ?thesis
  proof cases
    case nan
    then show ?thesis by (simp add: is_finite_def)
  next
    case inf
    then show ?thesis by (simp add: is_finite_def maxEdgeLength_value)
  next
    case zero
    then show ?thesis
      by (simp add: is_finite_def maxEdgeLength_value valof_def signed_def Let_def)
  next
    case pos
    then show ?thesis using below_threshold [OF pos(2) pos(3)] by (simp add: is_finite_def)
  qed
qed

lemma distance_below_threshold:
  "flt (glm_distance a b) maxEdgeLength
     \<longleftrightarrow> is_finite (glm_distance a b) \<and> valof (glm_distance a b) < 15 / 100"
  unfolding glm_distance_def glm_length_def by (rule sqrt_below_threshold)


section \<open>Rounding errors\<close>

text \<open>
  The computed floats against exact arithmetic: every operation returns a correct rounding
  of the exact result, and the errors of \<open>glm::dot\<close>, \<open>glm::length\<close>, \<open>glm::distance\<close>
  and \<open>glm::normalize\<close> follow from those of their operations.
\<close>

subsection \<open>Powers of two and the value of a float\<close>

lemma valof_powi: "valof (Fin s m e) = of_int (signed s m) * 2 powi e"
  by (simp add: valof_def power_int_def field_simps)

lemma pow2_pos: "0 < (2::rat) powi e"
  by (simp add: zero_less_power_int)

lemma pow2_add: "(2::rat) powi (a + b) = 2 powi a * 2 powi b"
  by (simp add: power_int_add)

lemma pow2_diff: "(2::rat) powi (a - b) = 2 powi a / 2 powi b"
  by (simp add: power_int_diff)

lemma pow2_mono: "a \<le> b \<Longrightarrow> (2::rat) powi a \<le> 2 powi b"
  by (simp add: power_int_increasing)

lemma of_nat_pow2: "(of_nat (2 ^ n) :: rat) = 2 powi int n"
  by simp

lemma floor_log2_ratio_bounds:
  assumes a: "0 < a" and b: "0 < b"
  defines "d \<equiv> floor_log2_ratio a b"
  shows "2 powi d \<le> (of_nat a :: rat) / of_nat b" "(of_nat a :: rat) / of_nat b < 2 powi (d + 1)"
proof -
  let ?la = "bit_length a" and ?lb = "bit_length b"
  define d0 where "d0 = int ?la - int ?lb"
  let ?A = "of_nat a :: rat" and ?B = "of_nat b :: rat"
  have Apos: "0 < ?A" and Bpos: "0 < ?B" using a b by simp_all
  from bit_length_bounds [OF a] have a_lo: "2 ^ (?la - 1) \<le> a" and a_hi: "a < 2 ^ ?la" by simp_all
  from bit_length_bounds [OF b] have b_lo: "2 ^ (?lb - 1) \<le> b" and b_hi: "b < 2 ^ ?lb" by simp_all
  have la: "0 < ?la" using a by (subst bit_length.simps) simp
  have lb: "0 < ?lb" using b by (subst bit_length.simps) simp
  have A_lo: "2 powi (int ?la - 1) \<le> ?A"
  proof -
    have "(of_nat (2 ^ (?la - 1)) :: rat) \<le> of_nat a" using a_lo by (simp only: of_nat_le_iff)
    moreover have "int (?la - 1) = int ?la - 1" using la by simp
    ultimately show ?thesis by (simp flip: power_int_of_nat)
  qed
  have A_hi: "?A < 2 powi int ?la"
  proof -
    have "(of_nat a :: rat) < of_nat (2 ^ ?la)" using a_hi by (simp only: of_nat_less_iff)
    then show ?thesis by simp
  qed
  have B_lo: "2 powi (int ?lb - 1) \<le> ?B"
  proof -
    have "(of_nat (2 ^ (?lb - 1)) :: rat) \<le> of_nat b" using b_lo by (simp only: of_nat_le_iff)
    moreover have "int (?lb - 1) = int ?lb - 1" using lb by simp
    ultimately show ?thesis by (simp flip: power_int_of_nat)
  qed
  have B_hi: "?B < 2 powi int ?lb"
  proof -
    have "(of_nat b :: rat) < of_nat (2 ^ ?lb)" using b_hi by (simp only: of_nat_less_iff)
    then show ?thesis by simp
  qed
  have upper: "?A / ?B < 2 powi (d0 + 1)"
  proof -
    have "?A / ?B < 2 powi int ?la / ?B" using A_hi Bpos by (simp add: divide_strict_right_mono)
    also have "\<dots> \<le> 2 powi int ?la / 2 powi (int ?lb - 1)"
      using B_lo Bpos by (intro divide_left_mono) (simp_all add: pow2_pos less_imp_le)
    also have "\<dots> = 2 powi (d0 + 1)"
    proof -
      have "d0 + 1 = int ?la - (int ?lb - 1)" by (simp add: d0_def)
      then show ?thesis by (simp only: pow2_diff)
    qed
    finally show ?thesis .
  qed
  have lower: "2 powi (d0 - 1) \<le> ?A / ?B"
  proof -
    have "(2::rat) powi (d0 - 1) = 2 powi (int ?la - 1) / 2 powi int ?lb"
    proof -
      have "d0 - 1 = (int ?la - 1) - int ?lb" by (simp add: d0_def)
      then show ?thesis by (simp only: pow2_diff)
    qed
    also have "\<dots> \<le> ?A / 2 powi int ?lb"
      using A_lo by (intro divide_right_mono) (simp_all add: pow2_pos less_imp_le)
    also have "\<dots> \<le> ?A / ?B"
      using B_hi Bpos Apos by (intro divide_left_mono) (simp_all add: pow2_pos less_imp_le)
    finally show ?thesis .
  qed
  have test: "(if 0 \<le> d0 then b * 2 ^ nat d0 \<le> a else b \<le> a * 2 ^ nat (- d0))
          \<longleftrightarrow> 2 powi d0 \<le> ?A / ?B"
  proof (cases "0 \<le> d0")
    case True
    have "b * 2 ^ nat d0 \<le> a \<longleftrightarrow> (of_nat (b * 2 ^ nat d0) :: rat) \<le> of_nat a"
      by (simp only: of_nat_le_iff)
    also have "\<dots> \<longleftrightarrow> ?B * 2 powi d0 \<le> ?A"
      using True by (simp add: power_int_def)
    also have "\<dots> \<longleftrightarrow> 2 powi d0 \<le> ?A / ?B"
      using Bpos by (simp add: pos_le_divide_eq mult.commute)
    finally show ?thesis using True by simp
  next
    case False
    have "b \<le> a * 2 ^ nat (- d0) \<longleftrightarrow> (of_nat b :: rat) \<le> of_nat (a * 2 ^ nat (- d0))"
      by (simp only: of_nat_le_iff)
    also have "\<dots> \<longleftrightarrow> ?B \<le> ?A * 2 powi (- d0)"
      using False by (simp add: power_int_def)
    also have "\<dots> \<longleftrightarrow> ?B * 2 powi d0 \<le> ?A"
      by (simp add: power_int_minus field_simps pow2_pos)
    also have "\<dots> \<longleftrightarrow> 2 powi d0 \<le> ?A / ?B"
      using Bpos by (simp add: pos_le_divide_eq mult.commute)
    finally show ?thesis using False by simp
  qed
  have d: "d = (if 2 powi d0 \<le> ?A / ?B then d0 else d0 - 1)"
    unfolding d_def floor_log2_ratio_def Let_def d0_def [symmetric] using test by simp
  show "2 powi d \<le> ?A / ?B" using lower by (simp add: d)
  show "?A / ?B < 2 powi (d + 1)" using upper by (auto simp: d not_le)
qed

subsection \<open>The error of \<open>round_ratio\<close>\<close>

lemma nearest_even_half:
  assumes "0 < den"
  shows "\<bar>(of_nat (nearest_even num den) :: rat) - of_nat num / of_nat den\<bar> \<le> 1 / 2"
proof -
  let ?q = "nearest_even num den"
  have D: "0 < (of_nat den :: rat)" using assms by simp
  have "(of_int (2 * \<bar>int ?q * int den - int num\<bar>) :: rat) \<le> of_int (int den)"
    using nearest_even_close [OF assms, of num] by (simp only: of_int_le_iff)
  then have i: "2 * \<bar>(of_nat ?q :: rat) * of_nat den - of_nat num\<bar> \<le> of_nat den"
    by simp
  have "(of_nat ?q :: rat) - of_nat num / of_nat den
        = ((of_nat ?q :: rat) * of_nat den - of_nat num) / of_nat den"
    using D by (simp add: field_simps)
  then have "\<bar>(of_nat ?q :: rat) - of_nat num / of_nat den\<bar>
        = \<bar>(of_nat ?q :: rat) * of_nat den - of_nat num\<bar> / of_nat den"
    using D by (simp add: abs_divide)
  also have "\<dots> \<le> (of_nat den / 2) / of_nat den"
    using i D by (intro divide_right_mono) simp_all
  also have "\<dots> = 1 / 2" using D by simp
  finally show ?thesis .
qed

text \<open>The significand and the exponent that \<open>round_ratio\<close> packs.\<close>

lemma round_ratio_pack:
  fixes a b :: nat and e :: int
  assumes a: "0 < a" and b: "0 < b"
  defines "X \<equiv> (of_nat a :: rat) / of_nat b * 2 powi e"
  defines "t \<equiv> max (e + floor_log2_ratio a b - 23) (- 149)"
  shows "\<exists>q. round_ratio s a b e = pack s q t \<and> \<bar>(of_nat q :: rat) - X / 2 powi t\<bar> \<le> 1 / 2"
proof (cases "t \<le> e")
  case True
  let ?q = "nearest_even (a * 2 ^ nat (e - t)) b"
  have r: "round_ratio s a b e = pack s ?q t"
    unfolding round_ratio_def Let_def t_def [symmetric] using True by simp
  have "(of_nat (a * 2 ^ nat (e - t)) :: rat) / of_nat b = of_nat a * 2 powi (e - t) / of_nat b"
    using True by (simp add: power_int_def)
  also have "\<dots> = X / 2 powi t"
    unfolding X_def by (simp only: pow2_diff) (simp add: field_simps)
  finally have "(of_nat (a * 2 ^ nat (e - t)) :: rat) / of_nat b = X / 2 powi t" .
  with nearest_even_half [OF b, of "a * 2 ^ nat (e - t)"] r show ?thesis by auto
next
  case False
  let ?q = "nearest_even a (b * 2 ^ nat (t - e))"
  have r: "round_ratio s a b e = pack s ?q t"
    unfolding round_ratio_def Let_def t_def [symmetric] using False by simp
  have den: "0 < b * 2 ^ nat (t - e)" using b by simp
  have "(of_nat a :: rat) / of_nat (b * 2 ^ nat (t - e)) = of_nat a / (of_nat b * 2 powi (t - e))"
    using False by (simp add: power_int_def)
  also have "\<dots> = X / 2 powi t"
    unfolding X_def by (simp only: pow2_diff) (simp add: field_simps)
  finally have "(of_nat a :: rat) / of_nat (b * 2 ^ nat (t - e)) = X / 2 powi t" .
  with nearest_even_half [OF den, of a] r show ?thesis by auto
qed

lemma round_ratio_error:
  fixes a b :: nat and e :: int
  assumes a: "0 < a" and b: "0 < b"
  defines "X \<equiv> (of_nat a :: rat) / of_nat b * 2 powi e"
  shows "(round_ratio s a b e = Inf s \<and> 2 ^ 127 \<le> X)
       \<or> (\<exists>q t. round_ratio s a b e = Fin s q t \<and> q < 2 ^ 24 \<and> - 149 \<le> t \<and> t \<le> 104
              \<and> \<bar>of_nat q * 2 powi t - X\<bar> \<le> max (X / 2 ^ 24) (1 / 2 ^ 150))"
proof -
  define d where "d = floor_log2_ratio a b"
  define t where "t = max (e + d - 23) (- 149)"
  define Y where "Y = X / 2 powi t"
  define h where "h = max (X / 2 ^ 24) (1 / 2 ^ 150)"
  obtain q where r: "round_ratio s a b e = pack s q t"
    and half: "\<bar>(of_nat q :: rat) - Y\<bar> \<le> 1 / 2"
    using round_ratio_pack [OF a b, where e = e and s = s] unfolding X_def Y_def t_def d_def by blast
  have tpos: "0 < (2::rat) powi t" by (rule pow2_pos)
  have XY: "X = Y * 2 powi t" unfolding Y_def using tpos by simp
  from floor_log2_ratio_bounds [OF a b]
  have lo: "2 powi d \<le> (of_nat a :: rat) / of_nat b"
    and hi: "(of_nat a :: rat) / of_nat b < 2 powi (d + 1)"
    unfolding d_def by simp_all
  have Xlo: "2 powi (e + d) \<le> X"
  proof -
    have "2 powi (e + d) = 2 powi d * (2::rat) powi e" by (simp add: pow2_add mult.commute)
    also have "\<dots> \<le> (of_nat a / of_nat b) * 2 powi e"
      using lo by (intro mult_right_mono) (simp_all add: pow2_pos less_imp_le)
    finally show ?thesis by (simp add: X_def)
  qed
  have Xhi: "X < 2 powi (e + d + 1)"
  proof -
    have "X < 2 powi (d + 1) * (2::rat) powi e"
      unfolding X_def using hi by (intro mult_strict_right_mono) (simp_all add: pow2_pos)
    also have "\<dots> = 2 powi (e + d + 1)" by (simp add: pow2_add [symmetric] algebra_simps)
    finally show ?thesis .
  qed
  have t_ge: "e + d - 23 \<le> t" "- 149 \<le> t" by (simp_all add: t_def)
  have Yhi: "Y < 2 ^ 24"
  proof -
    have "Y < 2 powi (e + d + 1) / 2 powi t"
      unfolding Y_def using Xhi tpos by (simp add: divide_strict_right_mono)
    also have "\<dots> = 2 powi (e + d + 1 - t)" by (simp only: pow2_diff)
    also have "\<dots> \<le> 2 powi 24" using t_ge by (intro pow2_mono) simp
    finally show ?thesis by simp
  qed
  have Ylo: "2 ^ 23 \<le> Y" if "t = e + d - 23"
  proof -
    have "(2::rat) powi 23 = 2 powi (e + d - t)" using that by simp
    also have "\<dots> = 2 powi (e + d) / 2 powi t" by (simp only: pow2_diff)
    also have "\<dots> \<le> Y" unfolding Y_def using Xlo tpos by (simp add: divide_right_mono)
    finally show ?thesis by simp
  qed
  have q_le: "q \<le> 2 ^ 24"
  proof -
    have "(of_nat q :: rat) \<le> Y + 1 / 2" using half by linarith
    also have "\<dots> < 2 ^ 24 + 1" using Yhi by simp
    finally have "(of_nat q :: rat) < of_nat (2 ^ 24 + 1)" by simp
    then have "q < 2 ^ 24 + 1" by (simp only: of_nat_less_iff)
    then show ?thesis by simp
  qed
  have err: "\<bar>of_nat q * 2 powi t - X\<bar> \<le> 2 powi t / 2"
  proof -
    have "of_nat q * 2 powi t - X = (of_nat q - Y) * 2 powi t"
      unfolding XY by (simp add: algebra_simps)
    then have "\<bar>of_nat q * 2 powi t - X\<bar> = \<bar>of_nat q - Y\<bar> * 2 powi t"
      using tpos by (simp add: abs_mult)
    also have "\<dots> \<le> (1 / 2) * 2 powi t"
      using half tpos by (intro mult_right_mono) simp_all
    finally show ?thesis by simp
  qed
  have hq: "2 powi t / 2 \<le> h"
  proof (cases "t = e + d - 23")
    case True
    have "(2::rat) powi t / 2 = 2 powi (e + d - 24)" 
      using True by (simp add: power_int_diff)
    also have "\<dots> = 2 powi (e + d) / 2 ^ 24" by (simp add: power_int_diff)
    also have "\<dots> \<le> X / 2 ^ 24" using Xlo by (simp add: divide_right_mono)
    also have "\<dots> \<le> h" by (simp add: h_def)
    finally show ?thesis .
  next
    case False
    then have "t = - 149" by (simp add: t_def max_def split: if_splits)
    then have "(2::rat) powi t / 2 = 1 / 2 ^ 150" by (simp add: power_int_minus field_simps)
    then show ?thesis by (simp add: h_def)
  qed
  note bound = order_trans [OF err hq]
  show ?thesis
  proof (cases "q = 2 ^ 24")
    case q24: True
    show ?thesis
    proof (cases "104 \<le> t")
      case True
      then have p: "round_ratio s a b e = Inf s" by (simp add: r pack_def q24)
      have "(of_nat q :: rat) = 2 ^ 24" using q24 by simp
      with half have "(2 ^ 24 - 1 / 2 :: rat) \<le> Y" by linarith
      then have "(2 ^ 24 - 1 / 2) * 2 powi 104 \<le> Y * 2 powi t"
        using True by (intro mult_mono pow2_mono) (simp_all add: pow2_pos less_imp_le)
      moreover have "(2 ^ 127 :: rat) \<le> (2 ^ 24 - 1 / 2) * 2 powi 104" by simp
      ultimately have "2 ^ 127 \<le> X" unfolding XY by linarith
      with p show ?thesis by simp
    next
      case False
      then have p: "round_ratio s a b e = Fin s (2 ^ 23) (t + 1)" by (simp add: r pack_def q24)
      have v: "(of_nat (2 ^ 23) :: rat) * 2 powi (t + 1) = of_nat q * 2 powi t"
        by (simp add: q24 power_int_add)
      have "\<bar>of_nat (2 ^ 23) * 2 powi (t + 1) - X\<bar> \<le> h"
        unfolding v by (rule bound)
      moreover have "(2 ^ 23 :: nat) < 2 ^ 24" by simp
      moreover have "- 149 \<le> t + 1" "t + 1 \<le> 104" using False t_ge by simp_all
      ultimately show ?thesis unfolding h_def using p by blast
    qed
  next
    case qn: False
    with q_le have q_lt: "q < 2 ^ 24" by simp
    show ?thesis
    proof (cases "104 < t")
      case True
      then have p: "round_ratio s a b e = Inf s" using qn by (simp add: r pack_def)
      from True have "t = e + d - 23" by (simp add: t_def max_def split: if_splits)
      from Ylo [OF this] have "2 ^ 23 * 2 powi 105 \<le> Y * 2 powi t"
        using True by (intro mult_mono pow2_mono) (simp_all add: pow2_pos less_imp_le)
      moreover have "(2 ^ 127 :: rat) \<le> 2 ^ 23 * 2 powi 105" by simp
      ultimately have "2 ^ 127 \<le> X" unfolding XY by linarith
      with p show ?thesis by simp
    next
      case False
      then have p: "round_ratio s a b e = Fin s q t" using qn by (simp add: r pack_def)
      have "t \<le> 104" using False by simp
      with p q_lt t_ge(2) bound show ?thesis unfolding h_def by blast
    qed
  qed
qed

subsection \<open>The arithmetic operations round correctly\<close>

lemma rounded_iff:
  "rounded r x \<longleftrightarrow>
     (\<exists>s. r = Inf s \<and> 2 ^ 127 \<le> \<bar>x\<bar>)
     \<or> (\<exists>s q t. r = Fin s q t \<and> q < 2 ^ 24 \<and> - 149 \<le> t \<and> t \<le> 104
            \<and> valof r * x \<ge> 0
            \<and> \<bar>valof r - x\<bar> \<le> max (\<bar>x\<bar> / 2 ^ 24) (1 / 2 ^ 150))"
  by (cases r) (simp_all add: rounded_def)

lemma rounded_zero: "rounded (fzero s) 0"
  by (simp add: rounded_iff fzero_def valof_def signed_def)

lemma rounded_round_ratio:
  fixes a b :: nat and e :: int
  assumes a: "0 < a" and b: "0 < b"
    and x: "x = (if s then - 1 else 1) * ((of_nat a :: rat) / of_nat b * 2 powi e)"
  shows "rounded (round_ratio s a b e) x"
proof -
  define X where "X = (of_nat a :: rat) / of_nat b * 2 powi e"
  have Xpos: "0 < X" unfolding X_def using a b by (simp add: pow2_pos)
  have xs: "x = (if s then - 1 else 1) * X" unfolding x X_def ..
  have ax: "\<bar>x\<bar> = X" using Xpos unfolding xs by (cases s) simp_all
  from round_ratio_error [OF a b, where e = e and s = s]
  consider (inf) "round_ratio s a b e = Inf s" "2 ^ 127 \<le> X"
    | (fin) q t where "round_ratio s a b e = Fin s q t" "q < 2 ^ 24" "- 149 \<le> t" "t \<le> 104"
        "\<bar>of_nat q * 2 powi t - X\<bar> \<le> max (X / 2 ^ 24) (1 / 2 ^ 150)"
    unfolding X_def by blast
  then show ?thesis
  proof cases
    case inf
    then show ?thesis by (auto simp: rounded_iff ax)
  next
    case fin
    have v: "valof (Fin s q t) = (if s then - 1 else 1) * (of_nat q * 2 powi t)"
      by (simp add: valof_powi signed_def)
    have d: "\<bar>valof (Fin s q t) - x\<bar> = \<bar>of_nat q * 2 powi t - X\<bar>"
      unfolding v xs by (simp add: abs_minus_commute)
    have "0 \<le> (of_nat q :: rat) * 2 powi t * X"
      using Xpos by (simp add: pow2_pos less_imp_le)
    then have sgn: "0 \<le> valof (Fin s q t) * x"
      unfolding v xs by (simp add: algebra_simps)
    show ?thesis
      unfolding rounded_iff fin(1) d ax using fin(2-5) sgn by blast
  qed
qed

lemma valof_abs: "\<bar>valof (Fin s m e)\<bar> = of_nat m * 2 powi e"
  by (simp add: valof_powi signed_def abs_mult pow2_pos less_imp_le)

lemma valof_sign: "valof (Fin s m e) = (if s then - 1 else 1) * (of_nat m * 2 powi e)"
  by (simp add: valof_powi signed_def)

lemma rounded_fmul:
  assumes "is_finite x" "is_finite y"
  shows "rounded (fmul x y) (valof x * valof y)"
proof -
  obtain s m e where x: "x = Fin s m e" using assms(1) by (cases x) (simp_all add: is_finite_def)
  obtain t n g where y: "y = Fin t n g" using assms(2) by (cases y) (simp_all add: is_finite_def)
  show ?thesis
  proof (cases "m = 0 \<or> n = 0")
    case True
    then have z: "valof x * valof y = 0" by (auto simp: x y valof_sign)
    have f: "fmul x y = fzero (s \<noteq> t)" using True by (simp add: x y)
    show ?thesis unfolding z f by (rule rounded_zero)
  next
    case False
    then have f: "fmul x y = round_ratio (s \<noteq> t) (m * n) 1 (e + g)" by (simp add: x y)
    show ?thesis unfolding f
    proof (rule rounded_round_ratio)
      show "0 < m * n" using False by simp
      show "0 < (1::nat)" by simp
      show "valof x * valof y
          = (if s \<noteq> t then - 1 else 1) * ((of_nat (m * n) :: rat) / of_nat 1 * 2 powi (e + g))"
        by (simp add: x y valof_sign pow2_add)
    qed
  qed
qed

lemma rounded_fdiv:
  assumes "is_finite x" "is_finite y" "valof y \<noteq> 0"
  shows "rounded (fdiv x y) (valof x / valof y)"
proof -
  obtain s m e where x: "x = Fin s m e" using assms(1) by (cases x) (simp_all add: is_finite_def)
  obtain t n g where y: "y = Fin t n g" using assms(2) by (cases y) (simp_all add: is_finite_def)
  have n: "n \<noteq> 0" using assms(3) by (auto simp: y valof_sign)
  show ?thesis
  proof (cases "m = 0")
    case True
    then have z: "valof x / valof y = 0" by (simp add: x valof_sign)
    have f: "fdiv x y = fzero (s \<noteq> t)" using True n by (simp add: x y)
    show ?thesis unfolding z f by (rule rounded_zero)
  next
    case False
    then have f: "fdiv x y = round_ratio (s \<noteq> t) m n (e - g)" using n by (simp add: x y)
    show ?thesis unfolding f
    proof (rule rounded_round_ratio)
      show "0 < m" using False by simp
      show "0 < n" using n by simp
      show "valof x / valof y
          = (if s \<noteq> t then - 1 else 1) * ((of_nat m :: rat) / of_nat n * 2 powi (e - g))"
        by (simp add: x y valof_sign pow2_diff)
    qed
  qed
qed

lemma signed_shift:
  assumes "x \<le> e"
  shows "(of_int (signed s (m * 2 ^ nat (e - x))) :: rat) * 2 powi x = of_int (signed s m) * 2 powi e"
proof -
  have "(2::rat) powi e = 2 powi (e - x) * 2 powi x"
    by (simp add: pow2_add [symmetric])
  also have "(2::rat) powi (e - x) = 2 ^ nat (e - x)"
    using assms by (simp add: power_int_def)
  finally have e: "(2::rat) powi e = 2 ^ nat (e - x) * 2 powi x" .
  show ?thesis unfolding e by (simp add: signed_def)
qed

lemma rounded_fadd:
  assumes "is_finite x" "is_finite y"
  shows "rounded (fadd x y) (valof x + valof y)"
proof -
  obtain s m e where x: "x = Fin s m e" using assms(1) by (cases x) (simp_all add: is_finite_def)
  obtain t n g where y: "y = Fin t n g" using assms(2) by (cases y) (simp_all add: is_finite_def)
  define c where "c = min e g"
  define v where "v = signed s (m * 2 ^ nat (e - c)) + signed t (n * 2 ^ nat (g - c))"
  have c: "c \<le> e" "c \<le> g" by (simp_all add: c_def)
  have S: "valof x + valof y = of_int v * 2 powi c"
    unfolding x y valof_powi v_def
    using signed_shift [OF c(1), of s m] signed_shift [OF c(2), of t n]
    by (simp add: algebra_simps)
  show ?thesis
  proof (cases "v = 0")
    case True
    then have z: "valof x + valof y = 0" by (simp add: S)
    have f: "fadd x y = fzero (s \<and> t)"
      using True by (simp add: x y Let_def c_def [symmetric] v_def [symmetric])
    show ?thesis unfolding z f by (rule rounded_zero)
  next
    case False
    then have f: "fadd x y = round_ratio (v < 0) (nat \<bar>v\<bar>) 1 c"
      by (simp add: x y Let_def c_def [symmetric] v_def [symmetric])
    show ?thesis unfolding f
    proof (rule rounded_round_ratio)
      show "0 < nat \<bar>v\<bar>" using False by simp
      show "0 < (1::nat)" by simp
      have "(of_int v :: rat) = (if v < 0 then - 1 else 1) * of_nat (nat \<bar>v\<bar>)"
        by (simp add: of_nat_nat)
      then show "valof x + valof y
          = (if v < 0 then - 1 else 1) * ((of_nat (nat \<bar>v\<bar>) :: rat) / of_nat 1 * 2 powi c)"
        unfolding S by simp
    qed
  qed
qed

subsection \<open>The square root\<close>

lemma sqrt_root_range:
  assumes N: "2 ^ 52 \<le> N" and N2: "N < 2 ^ 77"
  defines "r \<equiv> isqrt N"
  defines "k \<equiv> bit_length r - 24"
  defines "f \<equiv> r div 2 ^ k"
  shows "2 ^ 23 \<le> f" "f < 2 ^ 24" "3 \<le> k" "k \<le> 15" "f * 2 ^ k \<le> r" "r < (f + 1) * 2 ^ k"
proof -
  have sq: "r * r \<le> N" "N < (r + 1) * (r + 1)" unfolding r_def using isqrt_bounds by blast+
  have r26: "2 ^ 26 \<le> r"
  proof (rule ccontr)
    assume "\<not> 2 ^ 26 \<le> r"
    then have a: "r + 1 \<le> 2 ^ 26" by simp
    have "(r + 1) * (r + 1) \<le> 2 ^ 26 * 2 ^ 26" by (rule mult_le_mono [OF a a])
    with sq(2) N show False by simp
  qed
  have r39: "r < 2 ^ 39"
  proof (rule ccontr)
    assume "\<not> r < 2 ^ 39"
    then have a: "2 ^ 39 \<le> r" by simp
    have "2 ^ 39 * 2 ^ 39 \<le> r * r" by (rule mult_le_mono [OF a a])
    with sq(1) N2 show False by simp
  qed
  have rpos: "0 < r" using r26 by (meson less_le_trans zero_less_numeral zero_less_power)
  from bit_length_bounds [OF rpos] have lo: "2 ^ (bit_length r - 1) \<le> r"
    and hi: "r < 2 ^ bit_length r" by simp_all
  have p: "2 ^ 26 < (2::nat) ^ bit_length r" using r26 hi by simp
  have L: "26 < bit_length r"
    by (rule power_less_imp_less_exp [of "2::nat"]) (simp, rule p)
  have p2: "(2::nat) ^ (bit_length r - 1) < 2 ^ 39" using lo r39 by simp
  have L2: "bit_length r - 1 < 39"
    by (rule power_less_imp_less_exp [of "2::nat"]) (simp, rule p2)
  from L have bl: "bit_length r = k + 24" "bit_length r - 1 = k + 23" by (simp_all add: k_def)
  show "3 \<le> k" using L by (simp add: k_def)
  show "k \<le> 15" using L2 by (simp add: k_def)
  have "2 ^ 23 * 2 ^ k \<le> r" using lo by (simp add: bl power_add mult.commute)
  then show "2 ^ 23 \<le> f" unfolding f_def by (simp add: less_eq_div_iff_mult_less_eq)
  have "r < 2 ^ 24 * 2 ^ k" using hi by (simp add: bl power_add mult.commute)
  then show "f < 2 ^ 24" unfolding f_def by (simp add: less_mult_imp_div_less)
  show "f * 2 ^ k \<le> r" unfolding f_def by simp
  have "r < r div 2 ^ k * 2 ^ k + 2 ^ k"
    by (metis add.commute mod_less_divisor div_mult_mod_eq add_less_cancel_left zero_less_numeral zero_less_power mult.commute)
  then show "r < (f + 1) * 2 ^ k" unfolding f_def by (simp add: algebra_simps)
qed

lemma square_mono_rat: "0 \<le> a \<Longrightarrow> a \<le> b \<Longrightarrow> a\<^sup>2 \<le> (b::rat)\<^sup>2"
  by (rule power_mono)

lemma sqrt_significand_error:
  fixes N f k :: nat
  assumes f: "2 ^ 23 \<le> f" and k: "1 \<le> k"
    and fr: "f * 2 ^ k \<le> r" "r < (f + 1) * 2 ^ k"
    and sq: "r * r \<le> N" "N < (r + 1) * (r + 1)"
  defines "mid \<equiv> (2 * f + 1) * 2 ^ (k - 1)"
  defines "q \<equiv> (if N < mid * mid then f else if mid * mid < N then f + 1
                  else if even f then f else f + 1)"
  shows "(1 - 1 / 2 ^ 24)\<^sup>2 * (of_nat N :: rat) \<le> (of_nat (q * 2 ^ k))\<^sup>2"
    and "(of_nat (q * 2 ^ k) :: rat)\<^sup>2 \<le> (1 + 1 / 2 ^ 24)\<^sup>2 * of_nat N"
proof -
  define F where "F = (of_nat f :: rat)"
  define G where "G = (of_nat (2 ^ k) :: rat)"
  define R where "R = (of_nat r :: rat)"
  define Nq where "Nq = (of_nat N :: rat)"
  define M where "M = (of_nat mid :: rat)"
  have Gpos: "0 < G" by (simp add: G_def)
  have F23: "2 ^ 23 \<le> F"
    unfolding F_def using f by (metis of_nat_le_iff of_nat_numeral of_nat_power)
  have Fpos: "0 \<le> F" using F23 by simp
  have Rpos: "0 \<le> R" by (simp add: R_def)
  have Npos: "0 \<le> Nq" by (simp add: Nq_def)
  have FG: "F * G \<le> R"
    unfolding F_def G_def R_def using fr(1) by (metis of_nat_le_iff of_nat_mult)
  have RG: "R + 1 \<le> (F + 1) * G"
  proof -
    have "r + 1 \<le> (f + 1) * 2 ^ k" using fr(2) by simp
    then have "(of_nat (r + 1) :: rat) \<le> of_nat ((f + 1) * 2 ^ k)" by (simp only: of_nat_le_iff)
    then show ?thesis by (simp add: F_def G_def R_def algebra_simps)
  qed
  have RN: "R\<^sup>2 \<le> Nq"
  proof -
    have "(of_nat (r * r) :: rat) \<le> of_nat N" using sq(1) by (simp only: of_nat_le_iff)
    then show ?thesis by (simp add: R_def Nq_def power2_eq_square)
  qed
  have NR: "Nq < (R + 1)\<^sup>2"
  proof -
    have "(of_nat N :: rat) < of_nat ((r + 1) * (r + 1))" using sq(2) by (simp only: of_nat_less_iff)
    then show ?thesis by (simp add: R_def Nq_def power2_eq_square algebra_simps)
  qed
  have Mdef: "M = (2 * F + 1) * G / 2"
  proof -
    have "(2::nat) ^ k = 2 * 2 ^ (k - 1)" using k by (cases k) simp_all
    then have "G = 2 * of_nat (2 ^ (k - 1))" unfolding G_def by (metis of_nat_mult of_nat_numeral)
    then show ?thesis by (simp add: M_def mid_def F_def algebra_simps)
  qed
  have Mpos: "0 \<le> M" by (simp add: M_def)
  have lowM: "(1 - 1 / 2 ^ 24) * M \<le> F * G"
  proof -
    have "(1 - 1 / 2 ^ 24) * ((2 * F + 1) / 2) \<le> F" using F23 by simp
    then have "(1 - 1 / 2 ^ 24) * ((2 * F + 1) / 2) * G \<le> F * G"
      using Gpos by (intro mult_right_mono) simp_all
    then show ?thesis by (simp add: Mdef algebra_simps)
  qed
  have highM: "(F + 1) * G \<le> (1 + 1 / 2 ^ 24) * M"
  proof -
    have "F + 1 \<le> (1 + 1 / 2 ^ 24) * ((2 * F + 1) / 2)" using F23 by simp
    then have "(F + 1) * G \<le> (1 + 1 / 2 ^ 24) * ((2 * F + 1) / 2) * G"
      using Gpos by (intro mult_right_mono) simp_all
    then show ?thesis by (simp add: Mdef algebra_simps)
  qed
  have MN: "of_nat (mid * mid) = M\<^sup>2" by (simp add: M_def power2_eq_square)
  have "(q = f \<and> N \<le> mid * mid) \<or> (q = f + 1 \<and> mid * mid \<le> N)"
    unfolding q_def by (cases "N < mid * mid"; cases "mid * mid < N"; cases "even f") simp_all
  then consider (down) "q = f" "N \<le> mid * mid" | (up) "q = f + 1" "mid * mid \<le> N"
    by blast
  then have "(1 - 1 / 2 ^ 24)\<^sup>2 * Nq \<le> (of_nat (q * 2 ^ k))\<^sup>2
      \<and> (of_nat (q * 2 ^ k) :: rat)\<^sup>2 \<le> (1 + 1 / 2 ^ 24)\<^sup>2 * Nq"
  proof cases
    case down
    have Q: "(of_nat (q * 2 ^ k) :: rat) = F * G" by (simp add: down(1) F_def G_def)
    have NM: "Nq \<le> M\<^sup>2"
      unfolding MN [symmetric] Nq_def using down(2) by (simp only: of_nat_le_iff)
    have "(F * G)\<^sup>2 \<le> R\<^sup>2" using FG Fpos Gpos by (intro square_mono_rat) simp_all
    also have "\<dots> \<le> 1 * Nq" using RN by simp
    also have "\<dots> \<le> (1 + 1 / 2 ^ 24)\<^sup>2 * Nq"
      using Npos by (intro mult_right_mono) (simp_all add: power2_eq_square)
    finally have up: "(F * G)\<^sup>2 \<le> (1 + 1 / 2 ^ 24)\<^sup>2 * Nq" .
    have "(1 - 1 / 2 ^ 24)\<^sup>2 * Nq \<le> (1 - 1 / 2 ^ 24)\<^sup>2 * M\<^sup>2"
      using NM by (intro mult_left_mono) simp_all
    also have "\<dots> = ((1 - 1 / 2 ^ 24) * M)\<^sup>2" by (rule power_mult_distrib [symmetric])
    also have "\<dots> \<le> (F * G)\<^sup>2"
      using lowM Mpos by (intro square_mono_rat) simp_all
    finally show ?thesis using up unfolding Q by blast
  next
    case up
    have Q: "(of_nat (q * 2 ^ k) :: rat) = (F + 1) * G" by (simp add: up(1) F_def G_def algebra_simps)
    have MNq: "M\<^sup>2 \<le> Nq"
      unfolding MN [symmetric] Nq_def using up(2) by (simp only: of_nat_le_iff)
    have "(1 - 1 / 2 ^ 24)\<^sup>2 * Nq \<le> 1 * Nq"
      using Npos by (intro mult_right_mono) (simp_all add: power2_eq_square)
    also have "\<dots> \<le> (R + 1)\<^sup>2" using NR by simp
    also have "\<dots> \<le> ((F + 1) * G)\<^sup>2" using RG Rpos by (intro square_mono_rat) simp_all
    finally have lo: "(1 - 1 / 2 ^ 24)\<^sup>2 * Nq \<le> ((F + 1) * G)\<^sup>2" .
    have "((F + 1) * G)\<^sup>2 \<le> ((1 + 1 / 2 ^ 24) * M)\<^sup>2"
      using highM Fpos Gpos by (intro square_mono_rat) simp_all
    also have "\<dots> = (1 + 1 / 2 ^ 24)\<^sup>2 * M\<^sup>2" by (rule power_mult_distrib)
    also have "\<dots> \<le> (1 + 1 / 2 ^ 24)\<^sup>2 * Nq"
      using MNq by (intro mult_left_mono) simp_all
    finally show ?thesis using lo unfolding Q by blast
  qed
  then show "(1 - 1 / 2 ^ 24)\<^sup>2 * (of_nat N :: rat) \<le> (of_nat (q * 2 ^ k))\<^sup>2"
    and "(of_nat (q * 2 ^ k) :: rat)\<^sup>2 \<le> (1 + 1 / 2 ^ 24)\<^sup>2 * of_nat N"
    by (simp_all add: Nq_def)
qed

lemma valof_pack:
  assumes "q \<le> 2 ^ 24" "t < 104"
  shows "pack False q t = Fin False (if q = 2 ^ 24 then 2 ^ 23 else q) (if q = 2 ^ 24 then t + 1 else t)"
    and "valof (pack False q t) = of_nat q * 2 powi t"
proof -
  show "pack False q t = Fin False (if q = 2 ^ 24 then 2 ^ 23 else q) (if q = 2 ^ 24 then t + 1 else t)"
    using assms by (simp add: pack_def)
  have "(2::rat) powi (t + 1) = 2 * 2 powi t" by (simp add: power_int_add)
  then show "valof (pack False q t) = of_nat q * 2 powi t"
    using assms by (simp add: pack_def valof_powi signed_def)
qed

lemma fsqrt_error:
  assumes m: "0 < m" "m < 2 ^ 24" and e: "e \<le> 104"
  defines "x \<equiv> Fin False m e"
  shows "is_finite (fsqrt x)" and "0 < valof (fsqrt x)"
    and "(1 - 1 / 2 ^ 24)\<^sup>2 * valof x \<le> (valof (fsqrt x))\<^sup>2"
    and "(valof (fsqrt x))\<^sup>2 \<le> (1 + 1 / 2 ^ 24)\<^sup>2 * valof x"
proof -
  define p :: nat where "p = (if even e then 52 else 53)"
  define N where "N = m * 2 ^ p"
  define r where "r = isqrt N"
  define k where "k = bit_length r - 24"
  define f where "f = r div 2 ^ k"
  define mid where "mid = (2 * f + 1) * 2 ^ (k - 1)"
  define q where "q = (if N < mid * mid then f
                       else if mid * mid < N then f + 1
                       else if even f then f else f + 1)"
  define T where "T = (e - int p) div 2 + int k"
  define c where "c = (2::rat) powi (e - int p)"
  have eq: "fsqrt x = pack False q T"
    using m(1) unfolding x_def T_def q_def mid_def f_def k_def r_def N_def p_def
    by (simp add: Let_def)
  have p52: "2 ^ 52 \<le> (2::nat) ^ p" and p53: "(2::nat) ^ p \<le> 2 ^ 53" by (simp_all add: p_def)
  have "1 \<le> m" using m(1) by simp
  with p52 have N52: "2 ^ 52 \<le> N"
    unfolding N_def by (metis mult_le_mono nat_mult_1)
  have "m * 2 ^ p \<le> m * 2 ^ 53" using p53 by (rule mult_le_mono2)
  also have "\<dots> < 2 ^ 24 * 2 ^ 53" using m(2) by simp
  finally have N77: "N < 2 ^ 77" by (simp add: N_def)
  note rng = sqrt_root_range [OF N52 N77, folded r_def, folded k_def, folded f_def]
  have sq: "r * r \<le> N" "N < (r + 1) * (r + 1)" unfolding r_def using isqrt_bounds by blast+
  have k1: "1 \<le> k" using rng(3) by simp
  note err = sqrt_significand_error [OF rng(1) k1 rng(5) rng(6) sq, folded mid_def, folded q_def]
  have "q = f \<or> q = f + 1" by (simp add: q_def)
  with rng(1,2) have qb: "0 < q" "q \<le> 2 ^ 24" by auto
  have ev: "even (e - int p)" by (simp add: p_def)
  then have half: "2 * ((e - int p) div 2) = e - int p" by simp
  have "e - int p \<le> 52" using e by (simp add: p_def)
  then have "(e - int p) div 2 \<le> 26" by linarith
  with rng(4) have T104: "T < 104" by (simp add: T_def)
  have V: "valof (fsqrt x) = of_nat q * 2 powi T"
    unfolding eq by (rule valof_pack(2) [OF qb(2) T104])
  show "is_finite (fsqrt x)"
    unfolding eq valof_pack(1) [OF qb(2) T104] by (simp add: is_finite_def)
  show "0 < valof (fsqrt x)" unfolding V using qb(1) by (simp add: pow2_pos)
  have cpos: "0 < c" by (simp add: c_def pow2_pos)
  have "T + T = (e - int p) + (int k + int k)" using half by (simp add: T_def)
  then have "(2::rat) powi T * 2 powi T = 2 powi ((e - int p) + (int k + int k))"
    by (simp only: pow2_add [symmetric])
  also have "\<dots> = c * (2 powi int k * 2 powi int k)"
    by (simp only: pow2_add c_def)
  also have "\<dots> = c * (2 ^ k)\<^sup>2"
    by (simp add: power2_eq_square)
  finally have TT: "(2::rat) powi T * 2 powi T = c * (2 ^ k)\<^sup>2" .
  have V2: "(valof (fsqrt x))\<^sup>2 = (of_nat (q * 2 ^ k))\<^sup>2 * c"
  proof -
    have "(valof (fsqrt x))\<^sup>2 = (of_nat q)\<^sup>2 * (2 powi T * 2 powi T)"
      unfolding V by (simp add: power2_eq_square)
    then show ?thesis unfolding TT by (simp add: power_mult_distrib)
  qed
  have X: "valof x = of_nat N * c"
  proof -
    have "(2::rat) powi e = 2 powi (int p) * 2 powi (e - int p)"
      using pow2_add [of "int p" "e - int p"] by simp
    then show ?thesis by (simp add: x_def valof_powi signed_def N_def c_def)
  qed
  have "(1 - 1 / 2 ^ 24)\<^sup>2 * of_nat N * c \<le> (of_nat (q * 2 ^ k))\<^sup>2 * c"
    using err(1) cpos by (intro mult_right_mono) simp_all
  then show "(1 - 1 / 2 ^ 24)\<^sup>2 * valof x \<le> (valof (fsqrt x))\<^sup>2"
    unfolding V2 X by (simp only: mult.assoc)
  have "(of_nat (q * 2 ^ k))\<^sup>2 * c \<le> (1 + 1 / 2 ^ 24)\<^sup>2 * of_nat N * c"
    using err(2) cpos by (intro mult_right_mono) simp_all
  then show "(valof (fsqrt x))\<^sup>2 \<le> (1 + 1 / 2 ^ 24)\<^sup>2 * valof x"
    unfolding V2 X by (simp only: mult.assoc)
qed

subsection \<open>Arithmetic of the error bounds\<close>

lemma step1:
  fixes Q P :: rat
  assumes "0 \<le> Q" "\<bar>P - Q\<bar> \<le> \<bar>Q\<bar> / 2 ^ 24 + 1 / 2 ^ 150"
  shows "(1 - 1 / 2 ^ 24) * Q - 1 / 2 ^ 150 \<le> P" "P \<le> (1 + 1 / 2 ^ 24) * Q + 1 / 2 ^ 150"
  using assms by (simp_all add: abs_if algebra_simps split: if_splits)

lemma step2:
  fixes W S B :: rat
  assumes "\<bar>S - W\<bar> \<le> \<bar>W\<bar> / 2 ^ 24 + 1 / 2 ^ 150" "\<bar>W\<bar> \<le> B"
  shows "W - B / 2 ^ 24 - 1 / 2 ^ 150 \<le> S" "S \<le> W + B / 2 ^ 24 + 1 / 2 ^ 150"
proof -
  have "\<bar>W\<bar> / 2 ^ 24 \<le> B / 2 ^ 24" using assms(2) by (simp add: divide_right_mono)
  with assms(1) have "\<bar>S - W\<bar> \<le> B / 2 ^ 24 + 1 / 2 ^ 150" by simp
  then show "W - B / 2 ^ 24 - 1 / 2 ^ 150 \<le> S" "S \<le> W + B / 2 ^ 24 + 1 / 2 ^ 150"
    by (simp_all add: abs_le_iff algebra_simps)
qed

lemma dot_arith:
  fixes Qx Qy Qz :: rat
  assumes "0 \<le> Qx" "0 \<le> Qy" "0 \<le> Qz"
   "\<bar>vPx - Qx\<bar> \<le> \<bar>Qx\<bar> / 2 ^ 24 + 1 / 2 ^ 150"
   "\<bar>vPy - Qy\<bar> \<le> \<bar>Qy\<bar> / 2 ^ 24 + 1 / 2 ^ 150"
   "\<bar>vPz - Qz\<bar> \<le> \<bar>Qz\<bar> / 2 ^ 24 + 1 / 2 ^ 150"
   "\<bar>vS - (vPx + vPy)\<bar> \<le> \<bar>vPx + vPy\<bar> / 2 ^ 24 + 1 / 2 ^ 150"
   "\<bar>D - (vS + vPz)\<bar> \<le> \<bar>vS + vPz\<bar> / 2 ^ 24 + 1 / 2 ^ 150"
  shows "(1 - 1 / 2 ^ 21) * (Qx + Qy + Qz) - 8 / 2 ^ 150 \<le> D"
    and "D \<le> (1 + 1 / 2 ^ 21) * (Qx + Qy + Qz) + 8 / 2 ^ 150"
proof -
  note x = step1 [OF assms(1) assms(4)]
  note y = step1 [OF assms(2) assms(5)]
  note z = step1 [OF assms(3) assms(6)]
  have w1: "(1 - 1 / 2 ^ 24) * (Qx + Qy) - 2 / 2 ^ 150 \<le> vPx + vPy"
    using x y by (simp add: field_simps; linarith)
  have w2: "vPx + vPy \<le> (1 + 1 / 2 ^ 24) * (Qx + Qy) + 2 / 2 ^ 150"
    using x y by (simp add: field_simps; linarith)
  note w = w1 w2
  have "- (vPx + vPy) \<le> (1 + 1 / 2 ^ 24) * (Qx + Qy) + 2 / 2 ^ 150"
    using w1 assms(1,2) by (simp add: field_simps; linarith)
  with w2 have aw: "\<bar>vPx + vPy\<bar> \<le> (1 + 1 / 2 ^ 24) * (Qx + Qy) + 2 / 2 ^ 150"
    by (rule abs_leI)
  note s0 = step2 [OF assms(7) aw]
  have s1: "(1 - 1 / 2 ^ 22) * (Qx + Qy) - 4 / 2 ^ 150 \<le> vS"
    using w s0 assms(1,2) by (simp add: field_simps; linarith)
  have s2: "vS \<le> (1 + 1 / 2 ^ 22) * (Qx + Qy) + 4 / 2 ^ 150"
    using w s0 assms(1,2) by (simp add: field_simps; linarith)
  note s = s1 s2
  have t1: "(1 - 1 / 2 ^ 22) * (Qx + Qy + Qz) - 5 / 2 ^ 150 \<le> vS + vPz"
    using s z assms(1,2,3) by (simp add: field_simps; linarith)
  have t2: "vS + vPz \<le> (1 + 1 / 2 ^ 22) * (Qx + Qy + Qz) + 5 / 2 ^ 150"
    using s z assms(1,2,3) by (simp add: field_simps; linarith)
  note t = t1 t2
  have "- (vS + vPz) \<le> (1 + 1 / 2 ^ 22) * (Qx + Qy + Qz) + 5 / 2 ^ 150"
    using t1 assms(1,2,3) by (simp add: field_simps; linarith)
  with t2 have at: "\<bar>vS + vPz\<bar> \<le> (1 + 1 / 2 ^ 22) * (Qx + Qy + Qz) + 5 / 2 ^ 150"
    by (rule abs_leI)
  note d0 = step2 [OF assms(8) at]
  show "(1 - 1 / 2 ^ 21) * (Qx + Qy + Qz) - 8 / 2 ^ 150 \<le> D"
    using t d0 assms(1,2,3) by (simp add: field_simps; linarith)
  show "D \<le> (1 + 1 / 2 ^ 21) * (Qx + Qy + Qz) + 8 / 2 ^ 150"
    using t d0 assms(1,2,3) by (simp add: field_simps; linarith)
qed

lemma dot_arith_normal:
  fixes T D :: rat
  assumes "(1 - 1 / 2 ^ 21) * T - 8 / 2 ^ 150 \<le> D" "D \<le> (1 + 1 / 2 ^ 21) * T + 8 / 2 ^ 150"
    "1 / 2 ^ 126 \<le> D"
  shows "(1 - 1 / 2 ^ 19) * D \<le> T" "T \<le> (1 + 1 / 2 ^ 19) * D"
  using assms by (simp_all add: field_simps; linarith)+



lemma recip_error:
  fixes S R :: rat
  assumes "0 < S" "\<bar>R - 1 / S\<bar> \<le> (1 / S) / 2 ^ 24"
  shows "\<bar>R * S - 1\<bar> \<le> 1 / 2 ^ 24"
proof -
  have "R * S - 1 = (R - 1 / S) * S" using assms(1) by (simp add: field_simps)
  then have "\<bar>R * S - 1\<bar> = \<bar>R - 1 / S\<bar> * S" using assms(1) by (simp add: abs_mult)
  also have "\<dots> \<le> (1 / S) / 2 ^ 24 * S" using assms by (intro mult_right_mono) simp_all
  also have "\<dots> = 1 / 2 ^ 24" using assms(1) by simp
  finally show ?thesis .
qed

lemma sq_bounds:
  fixes w :: rat
  assumes "\<bar>w - 1\<bar> \<le> 1 / 2 ^ 24"
  shows "(1 - 1 / 2 ^ 24)\<^sup>2 \<le> w\<^sup>2" "w\<^sup>2 \<le> (1 + 1 / 2 ^ 24)\<^sup>2"
proof -
  have a: "1 - 1 / 2 ^ 24 \<le> w" "w \<le> 1 + 1 / 2 ^ 24"
    using abs_le_D1 [OF assms] abs_le_D2 [OF assms] by simp_all
  show "(1 - 1 / 2 ^ 24)\<^sup>2 \<le> w\<^sup>2" using a(1) by (intro power_mono) simp_all
  have "0 \<le> w" using a(1) by simp
  then show "w\<^sup>2 \<le> (1 + 1 / 2 ^ 24)\<^sup>2" using a(2) by (intro power_mono) simp_all
qed

lemma scaled_norm:
  fixes B D S2 T w2 :: rat
  assumes D: "0 < D" and B: "0 \<le> B"
    and S2: "(1 - 1 / 2 ^ 24)\<^sup>2 * D \<le> S2" "S2 \<le> (1 + 1 / 2 ^ 24)\<^sup>2 * D"
    and T: "(1 - 1 / 2 ^ 19) * D \<le> T" "T \<le> (1 + 1 / 2 ^ 19) * D"
    and w: "(1 - 1 / 2 ^ 24)\<^sup>2 \<le> w2" "w2 \<le> (1 + 1 / 2 ^ 24)\<^sup>2"
    and eq: "B * S2 = T * w2"
  shows "1 - 1 / 2 ^ 17 \<le> B" "B \<le> 1 + 1 / 2 ^ 17"
proof -
  have Tpos: "0 \<le> T" using T(1) D by (simp add: field_simps; linarith)
  have w2pos: "0 \<le> w2" using w(1) by (simp add: field_simps; linarith)
  have "B * ((1 - 1 / 2 ^ 24)\<^sup>2 * D) \<le> B * S2" using S2(1) B by (rule mult_left_mono)
  also have "\<dots> = T * w2" by (rule eq)
  also have "\<dots> \<le> ((1 + 1 / 2 ^ 19) * D) * (1 + 1 / 2 ^ 24)\<^sup>2"
    using T(2) w(2) w2pos D by (intro mult_mono) simp_all
  finally have "(B * (1 - 1 / 2 ^ 24)\<^sup>2) * D \<le> ((1 + 1 / 2 ^ 19) * (1 + 1 / 2 ^ 24)\<^sup>2) * D"
    by (simp only: mult_ac)
  then have "B * (1 - 1 / 2 ^ 24)\<^sup>2 \<le> (1 + 1 / 2 ^ 19) * (1 + 1 / 2 ^ 24)\<^sup>2"
    using D by (simp only: mult_le_cancel_right_pos)
  then show "B \<le> 1 + 1 / 2 ^ 17" by (simp add: field_simps power2_eq_square; linarith)
  have "((1 - 1 / 2 ^ 19) * D) * (1 - 1 / 2 ^ 24)\<^sup>2 \<le> T * w2"
    using T(1) w(1) D by (intro mult_mono) simp_all
  also have "\<dots> = B * S2" by (rule eq [symmetric])
  also have "\<dots> \<le> B * ((1 + 1 / 2 ^ 24)\<^sup>2 * D)" using S2(2) B by (rule mult_left_mono)
  finally have "((1 - 1 / 2 ^ 19) * (1 - 1 / 2 ^ 24)\<^sup>2) * D \<le> (B * (1 + 1 / 2 ^ 24)\<^sup>2) * D"
    by (simp only: mult_ac)
  then have "(1 - 1 / 2 ^ 19) * (1 - 1 / 2 ^ 24)\<^sup>2 \<le> B * (1 + 1 / 2 ^ 24)\<^sup>2"
    using D by (simp only: mult_le_cancel_right_pos)
  then show "1 - 1 / 2 ^ 17 \<le> B" by (simp add: field_simps power2_eq_square; linarith)
qed

lemma component_sq:
  fixes n c :: rat
  assumes c: "c\<^sup>2 \<le> 4" and n: "\<bar>n - c\<bar> \<le> max (\<bar>c\<bar> / 2 ^ 24) (1 / 2 ^ 150)"
  shows "\<bar>n\<^sup>2 - c\<^sup>2\<bar> \<le> 1 / 2 ^ 20"
proof -
  have "c\<^sup>2 \<le> 2\<^sup>2" using c by simp
  then have c2: "\<bar>c\<bar> \<le> 2" by (metis abs_le_square_iff abs_numeral)
  then have "\<bar>c\<bar> / 2 ^ 24 \<le> 2 / 2 ^ 24" by (intro divide_right_mono) simp_all
  then have "max (\<bar>c\<bar> / 2 ^ 24) (1 / 2 ^ 150) \<le> 2 / 2 ^ 24" by simp
  with n have d: "\<bar>n - c\<bar> \<le> 2 / 2 ^ 24" by (rule order_trans)
  have "\<bar>n + c\<bar> = \<bar>(n - c) + 2 * c\<bar>" by simp
  also have "\<dots> \<le> \<bar>n - c\<bar> + \<bar>2 * c\<bar>" by (rule abs_triangle_ineq)
  also have "\<dots> \<le> 2 / 2 ^ 24 + 4" using d c2 by (simp add: abs_mult)
  also have "\<dots> \<le> 5" by simp
  finally have s: "\<bar>n + c\<bar> \<le> 5" .
  have "n\<^sup>2 - c\<^sup>2 = (n - c) * (n + c)" by (simp add: power2_eq_square algebra_simps)
  then have "\<bar>n\<^sup>2 - c\<^sup>2\<bar> = \<bar>n - c\<bar> * \<bar>n + c\<bar>" by (simp add: abs_mult)
  also have "\<dots> \<le> (2 / 2 ^ 24) * 5" using d s by (intro mult_mono) simp_all
  also have "\<dots> \<le> 1 / 2 ^ 20" by simp
  finally show ?thesis .
qed

subsection \<open>Signs and finiteness\<close>

lemma one_value: "float_of_ratio 1 1 = Fin False 8388608 (- 23)"
  by (simp add: float_eval cong: let_weak_cong)

lemma valof_one: "valof (float_of_ratio 1 1) = 1" "is_finite (float_of_ratio 1 1)"
  unfolding one_value by (simp_all add: valof_def signed_def is_finite_def)

lemma is_finite_fadd: "is_finite (fadd x y) \<Longrightarrow> is_finite x \<and> is_finite y"
  by (cases x; cases y) (simp_all add: is_finite_def split: if_splits)

lemma is_finite_fmul: "is_finite (fmul x y) \<Longrightarrow> is_finite x \<and> is_finite y"
  by (cases x; cases y) (simp_all add: is_finite_def split: if_splits)

lemma is_finite_fneg: "is_finite (fneg x) = is_finite x"
  by (cases x) (simp_all add: is_finite_def fneg_def)

lemma valof_fneg: "valof (fneg x) = - valof x"
  by (cases x) (simp_all add: fneg_def valof_sign, simp_all add: valof_def)

lemma rounded_finite:
  assumes "rounded r x" "\<bar>x\<bar> < 2 ^ 127"
  shows "is_finite r" and "\<bar>valof r - x\<bar> \<le> max (\<bar>x\<bar> / 2 ^ 24) (1 / 2 ^ 150)"
  using assms by (auto simp: rounded_iff is_finite_def)

lemma rounded_is_finite:
  assumes "rounded r x" "is_finite r"
  shows "\<bar>valof r - x\<bar> \<le> \<bar>x\<bar> / 2 ^ 24 + 1 / 2 ^ 150"
    and "\<exists>s q t. r = Fin s q t \<and> q < 2 ^ 24 \<and> t \<le> 104"
    and "0 \<le> valof r * x"
proof -
  from assms obtain s q t where r: "r = Fin s q t" "q < 2 ^ 24" "t \<le> 104"
    and b: "\<bar>valof r - x\<bar> \<le> max (\<bar>x\<bar> / 2 ^ 24) (1 / 2 ^ 150)" and c: "0 \<le> valof r * x"
    by (auto simp: rounded_iff is_finite_def)
  have "max (\<bar>x\<bar> / 2 ^ 24) (1 / 2 ^ 150) \<le> \<bar>x\<bar> / 2 ^ 24 + 1 / 2 ^ 150" by simp
  with b show "\<bar>valof r - x\<bar> \<le> \<bar>x\<bar> / 2 ^ 24 + 1 / 2 ^ 150" by (rule order_trans)
  from r show "\<exists>s q t. r = Fin s q t \<and> q < 2 ^ 24 \<and> t \<le> 104" by blast
  show "0 \<le> valof r * x" by (rule c)
qed

lemma valof_zero_iff: "valof (Fin s m e) = 0 \<longleftrightarrow> m = 0"
proof -
  have "valof (Fin s m e) = 0 \<longleftrightarrow> \<bar>valof (Fin s m e)\<bar> = 0" by simp
  also have "\<dots> \<longleftrightarrow> m = 0" unfolding valof_abs using pow2_pos [of e] by simp
  finally show ?thesis .
qed

lemma fmul_self_nonneg:
  assumes "is_finite x"
  shows "0 \<le> valof (fmul x x)"
proof -
  obtain s m e where x: "x = Fin s m e" using assms by (cases x) (simp_all add: is_finite_def)
  show ?thesis
  proof (cases "m = 0")
    case True
    then show ?thesis by (simp add: x fzero_def valof_def signed_def)
  next
    case False
    then have "valof x \<noteq> 0" by (simp add: x valof_zero_iff)
    then have "0 < (valof x)\<^sup>2" using zero_less_power2 [of "valof x"] by blast
    then have p: "0 < valof x * valof x" by (simp only: power2_eq_square)
    show ?thesis
    proof (cases "is_finite (fmul x x)")
      case True
      from rounded_is_finite(3) [OF rounded_fmul [OF assms assms] True] p
      show ?thesis by (simp add: zero_le_mult_iff)
    next
      case False
      then show ?thesis by (cases "fmul x x") (simp_all add: is_finite_def valof_def)
    qed
  qed
qed

lemma fadd_nonneg:
  assumes "is_finite x" "is_finite y" "0 \<le> valof x" "0 \<le> valof y"
  shows "0 \<le> valof (fadd x y)"
proof -
  obtain s m e where x: "x = Fin s m e" using assms(1) by (cases x) (simp_all add: is_finite_def)
  obtain t n g where y: "y = Fin t n g" using assms(2) by (cases y) (simp_all add: is_finite_def)
  show ?thesis
  proof (cases "valof x + valof y = 0")
    case True
    with assms(3,4) have "valof x = 0" "valof y = 0" by simp_all
    then have "m = 0" "n = 0" by (simp_all add: x y valof_zero_iff)
    then show ?thesis by (simp add: x y fzero_def valof_def signed_def)
  next
    case False
    with assms(3,4) have p: "0 < valof x + valof y" by simp
    show ?thesis
    proof (cases "is_finite (fadd x y)")
      case True
      from rounded_is_finite(3) [OF rounded_fadd [OF assms(1,2)] True] p
      show ?thesis by (simp add: zero_le_mult_iff)
    next
      case False
      then show ?thesis by (cases "fadd x y") (simp_all add: is_finite_def valof_def)
    qed
  qed
qed

lemma fsqrt_nonneg:
  assumes m: "m < 2 ^ 24" and e: "e \<le> 104" and v: "0 \<le> valof (Fin s m e)"
  defines "x \<equiv> Fin s m e"
  shows "is_finite (fsqrt x)" and "0 \<le> valof (fsqrt x)"
    and "(1 - 1 / 2 ^ 24)\<^sup>2 * valof x \<le> (valof (fsqrt x))\<^sup>2"
    and "(valof (fsqrt x))\<^sup>2 \<le> (1 + 1 / 2 ^ 24)\<^sup>2 * valof x"
    and "0 < valof x \<Longrightarrow> 0 < valof (fsqrt x)"
proof -
  have "is_finite (fsqrt x) \<and> 0 \<le> valof (fsqrt x)
      \<and> (1 - 1 / 2 ^ 24)\<^sup>2 * valof x \<le> (valof (fsqrt x))\<^sup>2
      \<and> (valof (fsqrt x))\<^sup>2 \<le> (1 + 1 / 2 ^ 24)\<^sup>2 * valof x
      \<and> (0 < valof x \<longrightarrow> 0 < valof (fsqrt x))"
  proof (cases "m = 0")
    case True
    then show ?thesis by (simp add: x_def fzero_def valof_def signed_def is_finite_def)
  next
    case False
    then have mp: "0 < m" by simp
    have "\<not> s"
    proof
      assume s
      then have "valof (Fin s m e) = - (of_nat m * 2 powi e)" by (simp add: valof_sign)
      moreover have "0 < (of_nat m :: rat) * 2 powi e" using mp pow2_pos [of e] by simp
      ultimately show False using v by simp
    qed
    then have x: "x = Fin False m e" by (simp add: x_def)
    note f = fsqrt_error [OF mp m e]
    show ?thesis unfolding x using f by (simp add: less_imp_le)
  qed
  then show "is_finite (fsqrt x)" and "0 \<le> valof (fsqrt x)"
    and "(1 - 1 / 2 ^ 24)\<^sup>2 * valof x \<le> (valof (fsqrt x))\<^sup>2"
    and "(valof (fsqrt x))\<^sup>2 \<le> (1 + 1 / 2 ^ 24)\<^sup>2 * valof x"
    and "0 < valof x \<Longrightarrow> 0 < valof (fsqrt x)"
    by blast+
qed

subsection \<open>The dot product and the length\<close>

lemma dot_error:
  assumes fin: "is_finite (glm_dot a a)"
  defines "T \<equiv> (valof (vx a))\<^sup>2 + (valof (vy a))\<^sup>2 + (valof (vz a))\<^sup>2"
  shows "is_finite (vx a)" "is_finite (vy a)" "is_finite (vz a)"
    and "0 \<le> valof (glm_dot a a)"
    and "(1 - 1 / 2 ^ 21) * T - 8 / 2 ^ 150 \<le> valof (glm_dot a a)"
    and "valof (glm_dot a a) \<le> (1 + 1 / 2 ^ 21) * T + 8 / 2 ^ 150"
    and "\<exists>s q t. glm_dot a a = Fin s q t \<and> q < 2 ^ 24 \<and> t \<le> 104"
proof -
  define Px where "Px = fmul (vx a) (vx a)"
  define Py where "Py = fmul (vy a) (vy a)"
  define Pz where "Pz = fmul (vz a) (vz a)"
  define S1 where "S1 = fadd Px Py"
  have d: "glm_dot a a = fadd S1 Pz" by (simp add: glm_dot_def S1_def Px_def Py_def Pz_def)
  from fin have f1: "is_finite S1" "is_finite Pz" unfolding d using is_finite_fadd by blast+
  then have f2: "is_finite Px" "is_finite Py" unfolding S1_def using is_finite_fadd by blast+
  show fx: "is_finite (vx a)" using f2(1) unfolding Px_def using is_finite_fmul by blast
  show fy: "is_finite (vy a)" using f2(2) unfolding Py_def using is_finite_fmul by blast
  show fz: "is_finite (vz a)" using f1(2) unfolding Pz_def using is_finite_fmul by blast
  have p: "0 \<le> valof Px" "0 \<le> valof Py" "0 \<le> valof Pz"
    unfolding Px_def Py_def Pz_def using fx fy fz by (simp_all add: fmul_self_nonneg)
  have "0 \<le> valof S1" unfolding S1_def using f2 p(1,2) by (rule fadd_nonneg)
  with f1 show "0 \<le> valof (glm_dot a a)" unfolding d using p(3) by (intro fadd_nonneg)
  define Qx where "Qx = valof (vx a) * valof (vx a)"
  define Qy where "Qy = valof (vy a) * valof (vy a)"
  define Qz where "Qz = valof (vz a) * valof (vz a)"
  have q: "0 \<le> Qx" "0 \<le> Qy" "0 \<le> Qz" by (simp_all add: Qx_def Qy_def Qz_def)
  have ex: "\<bar>valof Px - Qx\<bar> \<le> \<bar>Qx\<bar> / 2 ^ 24 + 1 / 2 ^ 150"
    unfolding Qx_def Px_def
    by (rule rounded_is_finite(1) [OF rounded_fmul [OF fx fx] f2(1) [unfolded Px_def]])
  have ey: "\<bar>valof Py - Qy\<bar> \<le> \<bar>Qy\<bar> / 2 ^ 24 + 1 / 2 ^ 150"
    unfolding Qy_def Py_def
    by (rule rounded_is_finite(1) [OF rounded_fmul [OF fy fy] f2(2) [unfolded Py_def]])
  have ez: "\<bar>valof Pz - Qz\<bar> \<le> \<bar>Qz\<bar> / 2 ^ 24 + 1 / 2 ^ 150"
    unfolding Qz_def Pz_def
    by (rule rounded_is_finite(1) [OF rounded_fmul [OF fz fz] f1(2) [unfolded Pz_def]])
  have es: "\<bar>valof S1 - (valof Px + valof Py)\<bar> \<le> \<bar>valof Px + valof Py\<bar> / 2 ^ 24 + 1 / 2 ^ 150"
    unfolding S1_def
    by (rule rounded_is_finite(1) [OF rounded_fadd [OF f2] f1(1) [unfolded S1_def]])
  have ed: "\<bar>valof (glm_dot a a) - (valof S1 + valof Pz)\<bar>
      \<le> \<bar>valof S1 + valof Pz\<bar> / 2 ^ 24 + 1 / 2 ^ 150"
    unfolding d
    by (rule rounded_is_finite(1) [OF rounded_fadd [OF f1] fin [unfolded d]])
  have T: "T = Qx + Qy + Qz" by (simp add: T_def Qx_def Qy_def Qz_def power2_eq_square)
  show "(1 - 1 / 2 ^ 21) * T - 8 / 2 ^ 150 \<le> valof (glm_dot a a)"
    unfolding T by (rule dot_arith(1) [OF q ex ey ez es ed])
  show "valof (glm_dot a a) \<le> (1 + 1 / 2 ^ 21) * T + 8 / 2 ^ 150"
    unfolding T by (rule dot_arith(2) [OF q ex ey ez es ed])
  show "\<exists>s q t. glm_dot a a = Fin s q t \<and> q < 2 ^ 24 \<and> t \<le> 104"
    unfolding d
    by (rule rounded_is_finite(2) [OF rounded_fadd [OF f1] fin [unfolded d]])
qed

lemma length_error:
  assumes fin: "is_finite (glm_dot a a)"
  shows "is_finite (glm_length a)" and "0 \<le> valof (glm_length a)"
    and "(1 - 1 / 2 ^ 24)\<^sup>2 * valof (glm_dot a a) \<le> (valof (glm_length a))\<^sup>2"
    and "(valof (glm_length a))\<^sup>2 \<le> (1 + 1 / 2 ^ 24)\<^sup>2 * valof (glm_dot a a)"
    and "0 < valof (glm_dot a a) \<Longrightarrow> 0 < valof (glm_length a)"
proof -
  from dot_error(7) [OF fin] obtain s q t
    where d: "glm_dot a a = Fin s q t" and q: "q < 2 ^ 24" and t: "t \<le> 104" by blast
  have v: "0 \<le> valof (Fin s q t)" using dot_error(4) [OF fin] by (simp add: d)
  note f = fsqrt_nonneg [OF q t v]
  show "is_finite (glm_length a)" and "0 \<le> valof (glm_length a)"
    and "(1 - 1 / 2 ^ 24)\<^sup>2 * valof (glm_dot a a) \<le> (valof (glm_length a))\<^sup>2"
    and "(valof (glm_length a))\<^sup>2 \<le> (1 + 1 / 2 ^ 24)\<^sup>2 * valof (glm_dot a a)"
    and "0 < valof (glm_dot a a) \<Longrightarrow> 0 < valof (glm_length a)"
    unfolding glm_length_def d using f by blast+
qed

subsection \<open>\<open>glm::normalize\<close>\<close>

lemma valof_upper:
  assumes "q < 2 ^ 24" "t \<le> 104"
  shows "valof (Fin s q t) < 2 ^ 128"
proof -
  have "valof (Fin s q t) \<le> \<bar>valof (Fin s q t)\<bar>" by simp
  also have "\<dots> = of_nat q * 2 powi t" by (rule valof_abs)
  also have "\<dots> \<le> of_nat q * 2 powi 104"
    using assms(2) by (intro mult_left_mono pow2_mono) simp_all
  also have "\<dots> < 2 ^ 24 * 2 powi 104"
  proof -
    have "(of_nat q :: rat) < of_nat (2 ^ 24)" using assms(1) by (simp only: of_nat_less_iff)
    then show ?thesis by (intro mult_strict_right_mono) (simp_all add: pow2_pos)
  qed
  also have "\<dots> = 2 ^ 128" by simp
  finally show ?thesis .
qed

lemma length_range:
  fixes L D :: rat
  assumes L: "0 < L" and D: "1 / 2 ^ 126 \<le> D" "D < 2 ^ 128"
    and lo: "(1 - 1 / 2 ^ 24)\<^sup>2 * D \<le> L\<^sup>2" and hi: "L\<^sup>2 \<le> (1 + 1 / 2 ^ 24)\<^sup>2 * D"
  shows "1 / 2 ^ 64 \<le> L" and "L \<le> 2 ^ 65"
proof -
  show "1 / 2 ^ 64 \<le> L"
  proof (rule ccontr)
    assume "\<not> 1 / 2 ^ 64 \<le> L"
    then have "L < 1 / 2 ^ 64" by simp
    then have "L\<^sup>2 < (1 / 2 ^ 64)\<^sup>2" using L by (intro power_strict_mono) simp_all
    moreover have "(1 / 2 ^ 64)\<^sup>2 \<le> (1 - 1 / 2 ^ 24)\<^sup>2 * (1 / 2 ^ 126 :: rat)" by (simp add: power2_eq_square)
    moreover have "(1 - 1 / 2 ^ 24)\<^sup>2 * (1 / 2 ^ 126) \<le> (1 - 1 / 2 ^ 24)\<^sup>2 * D"
      using D(1) by (intro mult_left_mono) simp_all
    ultimately show False using lo by linarith
  qed
  show "L \<le> 2 ^ 65"
  proof (rule ccontr)
    assume "\<not> L \<le> 2 ^ 65"
    then have "2 ^ 65 < L" by simp
    then have "(2 ^ 65)\<^sup>2 < L\<^sup>2" by (intro power_strict_mono) simp_all
    moreover have "(1 + 1 / 2 ^ 24)\<^sup>2 * D \<le> (1 + 1 / 2 ^ 24)\<^sup>2 * 2 ^ 128"
      using D(2) by (intro mult_left_mono) simp_all
    moreover have "(1 + 1 / 2 ^ 24)\<^sup>2 * 2 ^ 128 \<le> ((2::rat) ^ 65)\<^sup>2" by (simp add: power2_eq_square)
    ultimately show False using hi by linarith
  qed
qed

lemma square_le_sum:
  fixes x y z :: rat
  shows "x\<^sup>2 \<le> x\<^sup>2 + y\<^sup>2 + z\<^sup>2" "y\<^sup>2 \<le> x\<^sup>2 + y\<^sup>2 + z\<^sup>2" "z\<^sup>2 \<le> x\<^sup>2 + y\<^sup>2 + z\<^sup>2"
  by simp_all

lemma scaled_component:
  assumes x: "is_finite x" and r: "is_finite r"
    and c: "(valof x * valof r)\<^sup>2 \<le> 4"
  shows "is_finite (fmul x r)"
    and "\<bar>(valof (fmul x r))\<^sup>2 - (valof x * valof r)\<^sup>2\<bar> \<le> 1 / 2 ^ 20"
proof -
  have "(valof x * valof r)\<^sup>2 \<le> 2\<^sup>2" using c by simp
  then have "\<bar>valof x * valof r\<bar> \<le> 2" by (metis abs_le_square_iff abs_numeral)
  then have b: "\<bar>valof x * valof r\<bar> < 2 ^ 127" by simp
  note f = rounded_finite [OF rounded_fmul [OF x r] b]
  show "is_finite (fmul x r)" by (rule f(1))
  show "\<bar>(valof (fmul x r))\<^sup>2 - (valof x * valof r)\<^sup>2\<bar> \<le> 1 / 2 ^ 20"
    by (rule component_sq [OF c f(2)])
qed

lemma glm_normalize_unit:
  assumes fin: "is_finite (glm_dot a a)" and low: "1 / 2 ^ 126 \<le> valof (glm_dot a a)"
  defines "n \<equiv> glm_normalize a"
  shows "is_finite (vx n)" "is_finite (vy n)" "is_finite (vz n)"
    and "(1 - 1 / 10000)\<^sup>2 \<le> (valof (vx n))\<^sup>2 + (valof (vy n))\<^sup>2 + (valof (vz n))\<^sup>2"
    and "(valof (vx n))\<^sup>2 + (valof (vy n))\<^sup>2 + (valof (vz n))\<^sup>2 \<le> (1 + 1 / 10000)\<^sup>2"
proof -
  define D where "D = valof (glm_dot a a)"
  define T where "T = (valof (vx a))\<^sup>2 + (valof (vy a))\<^sup>2 + (valof (vz a))\<^sup>2"
  define l where "l = fsqrt (glm_dot a a)"
  define L where "L = valof l"
  define r where "r = fdiv (float_of_ratio 1 1) l"
  define R where "R = valof r"
  define B where "B = T * R\<^sup>2"
  note de = dot_error [OF fin, folded T_def D_def]
  note le = length_error [OF fin, unfolded glm_length_def, folded l_def L_def D_def]
  have Dpos: "0 < D" using low unfolding D_def by (rule less_le_trans [rotated]) simp
  have Lpos: "0 < L" using le(5) Dpos by simp
  from de(7) obtain s q t where dq: "glm_dot a a = Fin s q t" "q < 2 ^ 24" "t \<le> 104" by blast
  have D128: "D < 2 ^ 128" unfolding D_def dq(1) by (rule valof_upper [OF dq(2,3)])
  note lr = length_range [OF Lpos low [folded D_def] D128 le(3) le(4)]
  have Tb: "(1 - 1 / 2 ^ 19) * D \<le> T" "T \<le> (1 + 1 / 2 ^ 19) * D"
    using dot_arith_normal [OF de(5) de(6) low [folded D_def]] by blast+
  have inv_hi: "1 / L \<le> 2 ^ 64"
    using lr(1) Lpos by (simp add: field_simps)
  have inv_lo: "1 / 2 ^ 65 \<le> 1 / L"
    using lr(2) Lpos by (intro divide_left_mono) simp_all
  have "\<bar>1 / L\<bar> = 1 / L" using Lpos by simp
  with inv_hi have "\<bar>1 / L\<bar> < 2 ^ 127" by simp
  then have b: "\<bar>valof (float_of_ratio 1 1) / valof l\<bar> < 2 ^ 127"
    unfolding valof_one(1) L_def .
  have Lne: "valof l \<noteq> 0" using Lpos by (simp add: L_def)
  note fr = rounded_finite [OF rounded_fdiv [OF valof_one(2) le(1) Lne] b, folded r_def,
    unfolded valof_one(1), folded R_def L_def]
  have "(1 / 2 ^ 150 :: rat) \<le> (1 / 2 ^ 65) / 2 ^ 24" by simp
  also have "\<dots> \<le> (1 / L) / 2 ^ 24" using inv_lo by (intro divide_right_mono) simp_all
  finally have "max (\<bar>1 / L\<bar> / 2 ^ 24) (1 / 2 ^ 150) = (1 / L) / 2 ^ 24"
    using Lpos by (simp add: max_def)
  with fr(2) have "\<bar>R - 1 / L\<bar> \<le> (1 / L) / 2 ^ 24" by simp
  note w = sq_bounds [OF recip_error [OF Lpos this]]
  have eq: "B * L\<^sup>2 = T * (R * L)\<^sup>2" by (simp add: B_def power_mult_distrib)
  have Bpos: "0 \<le> B" by (simp add: B_def T_def)
  note Bb = scaled_norm [OF Dpos Bpos le(3) le(4) Tb w eq]
  have B4: "B \<le> 4" using Bb(2) by simp
  have cx: "(valof (vx a) * R)\<^sup>2 \<le> 4"
  proof -
    have "(valof (vx a) * R)\<^sup>2 = (valof (vx a))\<^sup>2 * R\<^sup>2" by (rule power_mult_distrib)
    also have "\<dots> \<le> T * R\<^sup>2" unfolding T_def by (intro mult_right_mono square_le_sum) simp
    finally show ?thesis using B4 by (simp add: B_def)
  qed
  have cy: "(valof (vy a) * R)\<^sup>2 \<le> 4"
  proof -
    have "(valof (vy a) * R)\<^sup>2 = (valof (vy a))\<^sup>2 * R\<^sup>2" by (rule power_mult_distrib)
    also have "\<dots> \<le> T * R\<^sup>2" unfolding T_def by (intro mult_right_mono square_le_sum) simp
    finally show ?thesis using B4 by (simp add: B_def)
  qed
  have cz: "(valof (vz a) * R)\<^sup>2 \<le> 4"
  proof -
    have "(valof (vz a) * R)\<^sup>2 = (valof (vz a))\<^sup>2 * R\<^sup>2" by (rule power_mult_distrib)
    also have "\<dots> \<le> T * R\<^sup>2" unfolding T_def by (intro mult_right_mono square_le_sum) simp
    finally show ?thesis using B4 by (simp add: B_def)
  qed
  have n: "vx n = fmul (vx a) r" "vy n = fmul (vy a) r" "vz n = fmul (vz a) r"
    by (simp_all add: n_def glm_normalize_def glm_inversesqrt_def vec3_scale_def vec3_of_def
        r_def l_def)
  note sx = scaled_component [OF de(1) fr(1) cx [unfolded R_def], folded n(1), folded R_def]
  note sy = scaled_component [OF de(2) fr(1) cy [unfolded R_def], folded n(2), folded R_def]
  note sz = scaled_component [OF de(3) fr(1) cz [unfolded R_def], folded n(3), folded R_def]
  show "is_finite (vx n)" "is_finite (vy n)" "is_finite (vz n)"
    by (rule sx(1), rule sy(1), rule sz(1))
  have Bsum: "B = (valof (vx a) * R)\<^sup>2 + (valof (vy a) * R)\<^sup>2 + (valof (vz a) * R)\<^sup>2"
    by (simp add: B_def T_def power_mult_distrib algebra_simps)
  define N where "N = (valof (vx n))\<^sup>2 + (valof (vy n))\<^sup>2 + (valof (vz n))\<^sup>2"
  have "\<bar>N - B\<bar> \<le> 3 / 2 ^ 20"
    unfolding N_def Bsum using sx(2) sy(2) sz(2) by linarith
  then have Nb: "B - 3 / 2 ^ 20 \<le> N" "N \<le> B + 3 / 2 ^ 20"
    using abs_le_D1 [of "N - B" "3 / 2 ^ 20"] abs_le_D2 [of "N - B" "3 / 2 ^ 20"] by simp_all
  show "(1 - 1 / 10000)\<^sup>2 \<le> (valof (vx n))\<^sup>2 + (valof (vy n))\<^sup>2 + (valof (vz n))\<^sup>2"
    unfolding N_def [symmetric] using Nb(1) Bb(1) by (simp add: power2_eq_square field_simps; linarith)
  show "(valof (vx n))\<^sup>2 + (valof (vy n))\<^sup>2 + (valof (vz n))\<^sup>2 \<le> (1 + 1 / 10000)\<^sup>2"
    unfolding N_def [symmetric] using Nb(2) Bb(2) by (simp add: power2_eq_square field_simps; linarith)
qed

subsection \<open>\<open>glm::distance\<close>\<close>

lemma diff_sq_upper:
  fixes d t :: rat
  assumes e: "\<bar>d - t\<bar> \<le> \<bar>t\<bar> / 2 ^ 24 + 1 / 2 ^ 150" and d: "\<bar>d\<bar> \<le> 1"
  shows "(1 - 1 / 2 ^ 24)\<^sup>2 * t\<^sup>2 \<le> d\<^sup>2 + 3 / 2 ^ 150"
proof -
  have "\<bar>t\<bar> - \<bar>d\<bar> \<le> \<bar>d - t\<bar>" by simp
  with e have a: "(1 - 1 / 2 ^ 24) * \<bar>t\<bar> \<le> \<bar>d\<bar> + 1 / 2 ^ 150"
    by (simp add: field_simps; linarith)
  have "((1 - 1 / 2 ^ 24) * \<bar>t\<bar>)\<^sup>2 \<le> (\<bar>d\<bar> + 1 / 2 ^ 150)\<^sup>2"
    using a by (intro power_mono) simp_all
  also have "\<dots> = d\<^sup>2 + (2 / 2 ^ 150) * \<bar>d\<bar> + (1 / 2 ^ 150)\<^sup>2"
    by (simp add: power2_eq_square algebra_simps)
  also have "\<dots> \<le> d\<^sup>2 + (2 / 2 ^ 150) * 1 + 1 / 2 ^ 150"
    using d by (intro add_mono mult_left_mono) (simp_all add: power2_eq_square)
  also have "\<dots> = d\<^sup>2 + 3 / 2 ^ 150" by simp
  finally have "((1 - 1 / 2 ^ 24) * \<bar>t\<bar>)\<^sup>2 \<le> d\<^sup>2 + 3 / 2 ^ 150" .
  then show ?thesis by (simp only: power_mult_distrib power2_abs)
qed

lemma diff_sq_lower:
  fixes d t :: rat
  assumes e: "\<bar>d - t\<bar> \<le> \<bar>t\<bar> / 2 ^ 24 + 1 / 2 ^ 150" and t: "\<bar>t\<bar> \<le> 1"
  shows "d\<^sup>2 \<le> (1 + 1 / 2 ^ 24)\<^sup>2 * t\<^sup>2 + 3 / 2 ^ 150"
proof -
  have "\<bar>d\<bar> - \<bar>t\<bar> \<le> \<bar>d - t\<bar>" by simp
  with e have a: "\<bar>d\<bar> \<le> (1 + 1 / 2 ^ 24) * \<bar>t\<bar> + 1 / 2 ^ 150"
    by (simp add: field_simps; linarith)
  have "d\<^sup>2 = \<bar>d\<bar>\<^sup>2" by simp
  also have "\<dots> \<le> ((1 + 1 / 2 ^ 24) * \<bar>t\<bar> + 1 / 2 ^ 150)\<^sup>2"
    using a by (intro power_mono) simp_all
  also have "\<dots> = ((1 + 1 / 2 ^ 24) * \<bar>t\<bar>)\<^sup>2 + (2 / 2 ^ 150 * (1 + 1 / 2 ^ 24)) * \<bar>t\<bar> + (1 / 2 ^ 150)\<^sup>2"
    by (simp add: power2_eq_square algebra_simps)
  also have "\<dots> \<le> ((1 + 1 / 2 ^ 24) * \<bar>t\<bar>)\<^sup>2 + (2 / 2 ^ 150 * (1 + 1 / 2 ^ 24)) * 1 + (1 / 2 ^ 150)\<^sup>2"
    using t by (intro add_mono mult_left_mono) simp_all
  also have "\<dots> \<le> ((1 + 1 / 2 ^ 24) * \<bar>t\<bar>)\<^sup>2 + 3 / 2 ^ 150"
    by (simp add: power2_eq_square)
  finally have "d\<^sup>2 \<le> ((1 + 1 / 2 ^ 24) * \<bar>t\<bar>)\<^sup>2 + 3 / 2 ^ 150" .
  then show ?thesis by (simp only: power_mult_distrib power2_abs)
qed

lemma sq_le_one:
  fixes x :: rat
  assumes "x\<^sup>2 \<le> 1"
  shows "\<bar>x\<bar> \<le> 1"
proof -
  have "x\<^sup>2 \<le> 1\<^sup>2" using assms by simp
  then show ?thesis by (metis abs_le_square_iff abs_one)
qed

lemma sound_arith:
  fixes L2 D T' T :: rat
  assumes "(1 - 1 / 2 ^ 24)\<^sup>2 * D \<le> L2" "L2 < (15 / 100)\<^sup>2"
    "(1 - 1 / 2 ^ 21) * T' - 8 / 2 ^ 150 \<le> D"
  shows "T' \<le> 1"
  using assms by (simp add: power2_eq_square field_simps; linarith)

lemma sound_arith2:
  fixes L2 D T' T :: rat
  assumes "(1 - 1 / 2 ^ 24)\<^sup>2 * D \<le> L2" "L2 < (15 / 100)\<^sup>2"
    "(1 - 1 / 2 ^ 21) * T' - 8 / 2 ^ 150 \<le> D"
    "(1 - 1 / 2 ^ 24)\<^sup>2 * T \<le> T' + 9 / 2 ^ 150"
  shows "T < (15 / 100 * (1 + 1 / 2 ^ 20))\<^sup>2"
  using assms by (simp add: power2_eq_square field_simps; linarith)

lemma complete_arith:
  fixes T' T :: rat
  assumes "T < (15 / 100 * (1 - 1 / 2 ^ 20))\<^sup>2"
    "T' \<le> (1 + 1 / 2 ^ 24)\<^sup>2 * T + 9 / 2 ^ 150"
  shows "T' \<le> 1"
  using assms by (simp add: power2_eq_square field_simps; linarith)

lemma complete_arith2:
  fixes L2 D T' T :: rat
  assumes "T < (15 / 100 * (1 - 1 / 2 ^ 20))\<^sup>2"
    "T' \<le> (1 + 1 / 2 ^ 24)\<^sup>2 * T + 9 / 2 ^ 150"
    "D \<le> (1 + 1 / 2 ^ 21) * T' + 8 / 2 ^ 150"
    "L2 \<le> (1 + 1 / 2 ^ 24)\<^sup>2 * D"
  shows "L2 < (15 / 100)\<^sup>2"
  using assms by (simp add: power2_eq_square field_simps; linarith)

lemma finite_arith:
  fixes Qx Qy Qz :: rat
  assumes q: "0 \<le> Qx" "0 \<le> Qy" "0 \<le> Qz" and T: "Qx + Qy + Qz \<le> 2 ^ 125"
    and ex: "\<bar>vPx - Qx\<bar> \<le> \<bar>Qx\<bar> / 2 ^ 24 + 1 / 2 ^ 150"
    and ey: "\<bar>vPy - Qy\<bar> \<le> \<bar>Qy\<bar> / 2 ^ 24 + 1 / 2 ^ 150"
    and p: "0 \<le> vPx" "0 \<le> vPy"
  shows "\<bar>vPx + vPy\<bar> < 2 ^ 127"
proof -
  note x = step1 [OF q(1) ex]
  note y = step1 [OF q(2) ey]
  have "vPx + vPy < 2 ^ 127" using x(2) y(2) q T by (simp add: field_simps; linarith)
  then show ?thesis using p by simp
qed

lemma finite_arith2:
  fixes Qx Qy Qz :: rat
  assumes q: "0 \<le> Qx" "0 \<le> Qy" "0 \<le> Qz" and T: "Qx + Qy + Qz \<le> 2 ^ 125"
    and ex: "\<bar>vPx - Qx\<bar> \<le> \<bar>Qx\<bar> / 2 ^ 24 + 1 / 2 ^ 150"
    and ey: "\<bar>vPy - Qy\<bar> \<le> \<bar>Qy\<bar> / 2 ^ 24 + 1 / 2 ^ 150"
    and ez: "\<bar>vPz - Qz\<bar> \<le> \<bar>Qz\<bar> / 2 ^ 24 + 1 / 2 ^ 150"
    and es: "\<bar>vS - (vPx + vPy)\<bar> \<le> \<bar>vPx + vPy\<bar> / 2 ^ 24 + 1 / 2 ^ 150"
    and p: "0 \<le> vPx" "0 \<le> vPy" "0 \<le> vPz" "0 \<le> vS"
  shows "\<bar>vS + vPz\<bar> < 2 ^ 127"
proof -
  note x = step1 [OF q(1) ex]
  note y = step1 [OF q(2) ey]
  note z = step1 [OF q(3) ez]
  have w: "vPx + vPy \<le> 2 * (Qx + Qy) + 1" using x(2) y(2) q by (simp add: field_simps; linarith)
  then have "\<bar>vPx + vPy\<bar> \<le> 2 * (Qx + Qy) + 1" using p by simp
  note s = step2 [OF es this]
  have "vS + vPz < 2 ^ 127" using s(2) w z(2) q T by (simp add: field_simps; linarith)
  then show ?thesis using p by simp
qed

lemma is_finite_fsqrt: "is_finite (fsqrt x) \<Longrightarrow> is_finite x"
  by (cases x) (simp_all add: is_finite_def split: if_splits)

lemma fsub_error:
  assumes "is_finite (fsub y x)"
  shows "is_finite x" "is_finite y"
    and "\<bar>valof (fsub y x) - (valof y - valof x)\<bar> \<le> \<bar>valof y - valof x\<bar> / 2 ^ 24 + 1 / 2 ^ 150"
proof -
  from assms have f: "is_finite y" "is_finite (fneg x)"
    unfolding fsub_def using is_finite_fadd by blast+
  show "is_finite x" using f(2) by (simp add: is_finite_fneg)
  show "is_finite y" by (rule f(1))
  from rounded_is_finite(1) [OF rounded_fadd [OF f] assms [unfolded fsub_def]]
  show "\<bar>valof (fsub y x) - (valof y - valof x)\<bar> \<le> \<bar>valof y - valof x\<bar> / 2 ^ 24 + 1 / 2 ^ 150"
    by (simp add: fsub_def valof_fneg)
qed

lemma fsub_finite:
  assumes "is_finite x" "is_finite y" "\<bar>valof y - valof x\<bar> \<le> 1"
  shows "is_finite (fsub y x)"
proof -
  have f: "is_finite y" "is_finite (fneg x)" using assms by (simp_all add: is_finite_fneg)
  have "\<bar>valof y + valof (fneg x)\<bar> < 2 ^ 127" using assms(3) by (simp add: valof_fneg)
  from rounded_finite(1) [OF rounded_fadd [OF f] this] show ?thesis by (simp add: fsub_def)
qed

lemma dot_finite:
  assumes fx: "is_finite (vx a)" and fy: "is_finite (vy a)" and fz: "is_finite (vz a)"
    and T: "(valof (vx a))\<^sup>2 + (valof (vy a))\<^sup>2 + (valof (vz a))\<^sup>2 \<le> 2 ^ 125"
  shows "is_finite (glm_dot a a)"
proof -
  define Px where "Px = fmul (vx a) (vx a)"
  define Py where "Py = fmul (vy a) (vy a)"
  define Pz where "Pz = fmul (vz a) (vz a)"
  define S1 where "S1 = fadd Px Py"
  define Qx where "Qx = valof (vx a) * valof (vx a)"
  define Qy where "Qy = valof (vy a) * valof (vy a)"
  define Qz where "Qz = valof (vz a) * valof (vz a)"
  have d: "glm_dot a a = fadd S1 Pz" by (simp add: glm_dot_def S1_def Px_def Py_def Pz_def)
  have q: "0 \<le> Qx" "0 \<le> Qy" "0 \<le> Qz" by (simp_all add: Qx_def Qy_def Qz_def)
  have T': "Qx + Qy + Qz \<le> 2 ^ 125" using T by (simp add: Qx_def Qy_def Qz_def power2_eq_square)
  have b: "\<bar>Qx\<bar> < 2 ^ 127" "\<bar>Qy\<bar> < 2 ^ 127" "\<bar>Qz\<bar> < 2 ^ 127" using q T' by simp_all
  have f2: "is_finite Px" "is_finite Py" "is_finite Pz"
    unfolding Px_def Py_def Pz_def
    using rounded_finite(1) [OF rounded_fmul [OF fx fx] b(1) [unfolded Qx_def]]
      rounded_finite(1) [OF rounded_fmul [OF fy fy] b(2) [unfolded Qy_def]]
      rounded_finite(1) [OF rounded_fmul [OF fz fz] b(3) [unfolded Qz_def]] by blast+
  have p: "0 \<le> valof Px" "0 \<le> valof Py" "0 \<le> valof Pz"
    unfolding Px_def Py_def Pz_def using fx fy fz by (simp_all add: fmul_self_nonneg)
  have ex: "\<bar>valof Px - Qx\<bar> \<le> \<bar>Qx\<bar> / 2 ^ 24 + 1 / 2 ^ 150"
    unfolding Qx_def Px_def
    by (rule rounded_is_finite(1) [OF rounded_fmul [OF fx fx] f2(1) [unfolded Px_def]])
  have ey: "\<bar>valof Py - Qy\<bar> \<le> \<bar>Qy\<bar> / 2 ^ 24 + 1 / 2 ^ 150"
    unfolding Qy_def Py_def
    by (rule rounded_is_finite(1) [OF rounded_fmul [OF fy fy] f2(2) [unfolded Py_def]])
  have ez: "\<bar>valof Pz - Qz\<bar> \<le> \<bar>Qz\<bar> / 2 ^ 24 + 1 / 2 ^ 150"
    unfolding Qz_def Pz_def
    by (rule rounded_is_finite(1) [OF rounded_fmul [OF fz fz] f2(3) [unfolded Pz_def]])
  have fs: "is_finite S1"
    unfolding S1_def
    by (rule rounded_finite(1) [OF rounded_fadd [OF f2(1,2)] finite_arith [OF q T' ex ey p(1,2)]])
  have es: "\<bar>valof S1 - (valof Px + valof Py)\<bar> \<le> \<bar>valof Px + valof Py\<bar> / 2 ^ 24 + 1 / 2 ^ 150"
    unfolding S1_def
    by (rule rounded_is_finite(1) [OF rounded_fadd [OF f2(1,2)] fs [unfolded S1_def]])
  have ps: "0 \<le> valof S1" unfolding S1_def using f2(1,2) p(1,2) by (rule fadd_nonneg)
  show ?thesis
    unfolding d
    by (rule rounded_finite(1) [OF rounded_fadd [OF fs f2(3)]
          finite_arith2 [OF q T' ex ey ez es p ps]])
qed

lemma sub_components:
  "vx (vec3_sub q p) = fsub (vx q) (vx p)" "vy (vec3_sub q p) = fsub (vy q) (vy p)"
  "vz (vec3_sub q p) = fsub (vz q) (vz p)"
  by (simp_all add: vec3_sub_def vec3_of_def)

lemma distance_sound:
  assumes fin: "is_finite (glm_distance p q)" and lt: "valof (glm_distance p q) < 15 / 100"
  shows "finite_vec p" "finite_vec q" "sq_dist p q < (15 / 100 * (1 + 1 / 2 ^ 20))\<^sup>2"
proof -
  define a where "a = vec3_sub q p"
  define T' where "T' = (valof (vx a))\<^sup>2 + (valof (vy a))\<^sup>2 + (valof (vz a))\<^sup>2"
  have dist: "glm_distance p q = glm_length a" by (simp add: glm_distance_def a_def)
  have fd: "is_finite (glm_dot a a)"
    using fin unfolding dist glm_length_def by (rule is_finite_fsqrt)
  note de = dot_error [OF fd, folded T'_def]
  note le = length_error [OF fd, folded dist]
  have L2: "(valof (glm_distance p q))\<^sup>2 < (15 / 100)\<^sup>2"
    using le(2) lt by (intro power_strict_mono) simp_all
  have T1: "T' \<le> 1" by (rule sound_arith [OF le(3) L2 de(5)])
  have "(valof (vx a))\<^sup>2 \<le> T'" "(valof (vy a))\<^sup>2 \<le> T'" "(valof (vz a))\<^sup>2 \<le> T'"
    unfolding T'_def by (rule square_le_sum)+
  with T1 have c: "\<bar>valof (vx a)\<bar> \<le> 1" "\<bar>valof (vy a)\<bar> \<le> 1" "\<bar>valof (vz a)\<bar> \<le> 1"
    by (intro sq_le_one; simp)+
  note sx = fsub_error [OF de(1) [unfolded a_def sub_components]]
  note sy = fsub_error [OF de(2) [unfolded a_def sub_components]]
  note sz = fsub_error [OF de(3) [unfolded a_def sub_components]]
  show "finite_vec p" using sx(1) sy(1) sz(1) by (simp add: finite_vec_def)
  show "finite_vec q" using sx(2) sy(2) sz(2) by (simp add: finite_vec_def)
  note ux = diff_sq_upper [OF sx(3) c(1) [unfolded a_def sub_components]]
  note uy = diff_sq_upper [OF sy(3) c(2) [unfolded a_def sub_components]]
  note uz = diff_sq_upper [OF sz(3) c(3) [unfolded a_def sub_components]]
  have "(1 - 1 / 2 ^ 24)\<^sup>2 * sq_dist p q \<le> T' + 9 / 2 ^ 150"
    unfolding sq_dist_def T'_def a_def sub_components using ux uy uz
    by (simp only: distrib_left; linarith)
  from sound_arith2 [OF le(3) L2 de(5) this]
  show "sq_dist p q < (15 / 100 * (1 + 1 / 2 ^ 20))\<^sup>2" .
qed

lemma distance_complete:
  assumes p: "finite_vec p" and q: "finite_vec q"
    and lt: "sq_dist p q < (15 / 100 * (1 - 1 / 2 ^ 20))\<^sup>2"
  shows "is_finite (glm_distance p q)" "valof (glm_distance p q) < 15 / 100"
proof -
  define a where "a = vec3_sub q p"
  define T' where "T' = (valof (vx a))\<^sup>2 + (valof (vy a))\<^sup>2 + (valof (vz a))\<^sup>2"
  have dist: "glm_distance p q = glm_length a" by (simp add: glm_distance_def a_def)
  have "sq_dist p q \<le> 1" using lt by (simp add: power2_eq_square)
  moreover have "(valof (vx q) - valof (vx p))\<^sup>2 \<le> sq_dist p q"
    "(valof (vy q) - valof (vy p))\<^sup>2 \<le> sq_dist p q"
    "(valof (vz q) - valof (vz p))\<^sup>2 \<le> sq_dist p q"
    unfolding sq_dist_def by (rule square_le_sum)+
  ultimately have c: "\<bar>valof (vx q) - valof (vx p)\<bar> \<le> 1" "\<bar>valof (vy q) - valof (vy p)\<bar> \<le> 1"
    "\<bar>valof (vz q) - valof (vz p)\<bar> \<le> 1"
    by (intro sq_le_one; simp)+
  have f: "is_finite (vx a)" "is_finite (vy a)" "is_finite (vz a)"
    unfolding a_def sub_components using p q c by (simp_all add: finite_vec_def fsub_finite)
  note sx = fsub_error(3) [OF f(1) [unfolded a_def sub_components]]
  note sy = fsub_error(3) [OF f(2) [unfolded a_def sub_components]]
  note sz = fsub_error(3) [OF f(3) [unfolded a_def sub_components]]
  note ux = diff_sq_lower [OF sx c(1)]
  note uy = diff_sq_lower [OF sy c(2)]
  note uz = diff_sq_lower [OF sz c(3)]
  have Tb: "T' \<le> (1 + 1 / 2 ^ 24)\<^sup>2 * sq_dist p q + 9 / 2 ^ 150"
    unfolding sq_dist_def T'_def a_def sub_components using ux uy uz
    by (simp only: distrib_left; linarith)
  have "T' \<le> 1" by (rule complete_arith [OF lt Tb])
  then have "T' \<le> 2 ^ 125" by simp
  then have fd: "is_finite (glm_dot a a)" unfolding T'_def by (rule dot_finite [OF f])
  note de = dot_error [OF fd, folded T'_def]
  note le = length_error [OF fd, folded dist]
  show "is_finite (glm_distance p q)" by (rule le(1))
  have "(valof (glm_distance p q))\<^sup>2 < (15 / 100)\<^sup>2"
    by (rule complete_arith2 [OF lt Tb de(6) le(4)])
  then show "valof (glm_distance p q) < 15 / 100"
    by (rule power2_less_imp_less) simp
qed

subsection \<open>The tests of the filter\<close>

lemma computed_edges_below_eq:
  "computed_edges_below vertices = (\<lambda>(a, b, c). edges_ok vertices a b c)"
  by (simp add: computed_edges_below_def edges_ok_def fun_eq_iff Let_def distance_below_threshold)

lemma computed_imp_exact:
  assumes "computed_edges_below vertices t"
  shows "exact_edges_below (15 / 100 * (1 + 1 / 2 ^ 20)) vertices t"
proof -
  obtain a b c where t: "t = (a, b, c)" by (cases t)
  let ?p0 = "position (vertices ! unat a)"
  let ?p1 = "position (vertices ! unat b)"
  let ?p2 = "position (vertices ! unat c)"
  from assms have d: "is_finite (glm_distance ?p0 ?p1)" "valof (glm_distance ?p0 ?p1) < 15 / 100"
    "is_finite (glm_distance ?p1 ?p2)" "valof (glm_distance ?p1 ?p2) < 15 / 100"
    "is_finite (glm_distance ?p2 ?p0)" "valof (glm_distance ?p2 ?p0) < 15 / 100"
    by (simp_all add: computed_edges_below_def t Let_def)
  note a = distance_sound [OF d(1,2)]
  note b = distance_sound [OF d(3,4)]
  note c = distance_sound [OF d(5,6)]
  show ?thesis
    unfolding exact_edges_below_def t Let_def prod.case
    using a b c by (intro conjI)
qed

lemma exact_imp_computed:
  assumes "exact_edges_below (15 / 100 * (1 - 1 / 2 ^ 20)) vertices t"
  shows "computed_edges_below vertices t"
proof -
  obtain a b c where t: "t = (a, b, c)" by (cases t)
  let ?p0 = "position (vertices ! unat a)"
  let ?p1 = "position (vertices ! unat b)"
  let ?p2 = "position (vertices ! unat c)"
  from assms have f: "finite_vec ?p0" "finite_vec ?p1" "finite_vec ?p2"
    and d: "sq_dist ?p0 ?p1 < (15 / 100 * (1 - 1 / 2 ^ 20))\<^sup>2"
      "sq_dist ?p1 ?p2 < (15 / 100 * (1 - 1 / 2 ^ 20))\<^sup>2"
      "sq_dist ?p2 ?p0 < (15 / 100 * (1 - 1 / 2 ^ 20))\<^sup>2"
    by (simp_all add: exact_edges_below_def t Let_def)
  note a = distance_complete [OF f(1) f(2) d(1)]
  note b = distance_complete [OF f(2) f(3) d(2)]
  note c = distance_complete [OF f(3) f(1) d(3)]
  show ?thesis
    unfolding computed_edges_below_def t Let_def prod.case
    using a b c by (intro conjI)
qed

subsection \<open>\<open>glm::normalize\<close> against the exact length\<close>

lemma accumulator_in_range:
  fixes T D :: rat
  assumes "1 / 2 ^ 125 \<le> T" "(1 - 1 / 2 ^ 21) * T - 8 / 2 ^ 150 \<le> D"
  shows "1 / 2 ^ 126 \<le> D"
  using assms by (simp add: field_simps; linarith)

text \<open>
  \<open>glm::normalize\<close> of a finite vector whose Euclidean length is between \<open>2^-62.5\<close> and
  \<open>2^62.5\<close> is a finite vector whose Euclidean length is 1 within \<open>1e-4\<close>.
\<close>

lemma glm_normalize_unit_exact:
  assumes f: "finite_vec a" and lo: "1 / 2 ^ 125 \<le> sq_norm a" and hi: "sq_norm a \<le> 2 ^ 125"
  shows "finite_vec (glm_normalize a)"
    and "(1 - 1 / 10000)\<^sup>2 \<le> sq_norm (glm_normalize a)"
    and "sq_norm (glm_normalize a) \<le> (1 + 1 / 10000)\<^sup>2"
proof -
  have fd: "is_finite (glm_dot a a)"
    using f hi unfolding finite_vec_def sq_norm_def by (intro dot_finite) simp_all
  have low: "1 / 2 ^ 126 \<le> valof (glm_dot a a)"
    by (rule accumulator_in_range [OF lo dot_error(5) [OF fd, folded sq_norm_def]])
  note u = glm_normalize_unit [OF fd low]
  show "finite_vec (glm_normalize a)" unfolding finite_vec_def using u(1,2,3) by blast
  show "(1 - 1 / 10000)\<^sup>2 \<le> sq_norm (glm_normalize a)" unfolding sq_norm_def by (rule u(4))
  show "sq_norm (glm_normalize a) \<le> (1 + 1 / 10000)\<^sup>2" unfolding sq_norm_def by (rule u(5))
qed


section \<open>Lemmas about the loops\<close>

lemma length_insert_point: "length (insert_point p qs) = Suc (length qs)"
  by (induction qs) auto

lemma length_sort_points: "length (sort_points points) = length points"
  unfolding sort_points_def by (induction points) (auto simp: length_insert_point)

lemma fold_append_concat:
  "fold (\<lambda>i acc. acc @ f i) js acc = acc @ concat (map f js)"
  by (induction js arbitrary: acc) auto

lemma emit_candidates_eq:
  "emit_candidates sp indices =
     indices @ concat (map (\<lambda>i. [of_nat i, of_nat (i + 1), of_nat (i + 2)]) [0..<length sp - 2])"
  unfolding emit_candidates_def by (rule fold_append_concat)

lemma fold_update_upt:
  "n \<le> length vs \<Longrightarrow> fold (\<lambda>i vs. vs[i := g i]) [0..<n] vs = map g [0..<n] @ drop n vs"
proof (induction n)
  case 0
  then show ?case by simp
next
  case (Suc n)
  then have n: "n < length vs" by simp
  have "fold (\<lambda>i vs. vs[i := g i]) [0..<Suc n] vs = (map g [0..<n] @ drop n vs)[n := g n]"
    using Suc by simp
  also have "\<dots> = map g [0..<n] @ (drop n vs)[0 := g n]"
    by (simp add: list_update_append)
  also have "(drop n vs)[0 := g n] = g n # drop (Suc n) vs"
    using n by (simp add: Cons_nth_drop_Suc [symmetric])
  finally show ?case by simp
qed

lemma length_resize: "length (resize n vs) = n"
  by (simp add: resize_def)

lemma fill_vertices_eq:
  "fill_vertices points (resize (length points) vs) = map vertex_of_point points"
proof -
  have "fill_vertices points (resize (length points) vs)
        = map (\<lambda>i. vertex_of_point (points ! i)) [0..<length points]
          @ drop (length points) (resize (length points) vs)"
    unfolding fill_vertices_def by (rule fold_update_upt) (simp add: length_resize)
  also have "\<dots> = map (\<lambda>i. vertex_of_point (points ! i)) [0..<length points]"
    by (simp add: length_resize)
  also have "\<dots> = map vertex_of_point points"
    by (rule nth_equalityI) auto
  finally show ?thesis .
qed

lemma triples_untriple: "triples (untriple ts) = ts"
  by (induction ts) (auto simp: untriple_def)

lemma untriple_Cons: "untriple ((a, b, c) # ts) = a # b # c # untriple ts"
  by (simp add: untriple_def)

lemma untriple_Nil: "untriple [] = []"
  by (simp add: untriple_def)

lemma length_untriple: "length (untriple ts) = 3 * length ts"
  by (induction ts) (auto simp: untriple_def)

lemma set_triples:
  "(a, b, c) \<in> set (triples xs) \<Longrightarrow> a \<in> set xs \<and> b \<in> set xs \<and> c \<in> set xs"
  by (induction xs rule: triples.induct) auto

lemma set_untriple_filter: "set (untriple (filter P (triples xs))) \<subseteq> set xs"
  by (auto simp: untriple_def dest: set_triples)

lemma triples_concat_map:
  "triples (concat (map (\<lambda>i. [f i, g i, h i]) js)) = map (\<lambda>i. (f i, g i, h i)) js"
  by (induction js) auto

lemma length_concat_three:
  "length (concat (map (\<lambda>i. [f i, g i, h i]) js)) = 3 * length js"
  by (induction js) auto

lemma drop_three:
  "i + 2 < length xs \<Longrightarrow> drop i xs = xs ! i # xs ! (i + 1) # xs ! (i + 2) # drop (i + 3) xs"
proof -
  assume a: "i + 2 < length xs"
  have "drop i xs = xs ! i # drop (Suc i) xs" using a by (simp add: Cons_nth_drop_Suc)
  also have "drop (Suc i) xs = xs ! (i + 1) # drop (Suc (Suc i)) xs"
    using a by (simp add: Cons_nth_drop_Suc)
  also have "drop (Suc (Suc i)) xs = xs ! (i + 2) # drop (i + 3) xs"
    using a Cons_nth_drop_Suc [of "i + 2" xs] by (simp add: numeral_3_eq_3)
  finally show ?thesis .
qed

lemma unat_of_nat_u32: "k < 2 ^ 32 \<Longrightarrow> unat (of_nat k :: u32) = k"
  by (simp add: unat_of_nat)

lemma unat_of_nat_u32_le: "unat (of_nat k :: u32) \<le> k"
  by (simp add: unat_of_nat)

lemma map_unat_candidates:
  "\<forall>j\<in>set js. j + 2 < 2 ^ 32 \<Longrightarrow>
   map unat (concat (map (\<lambda>i. [of_nat i, of_nat (i + 1), of_nat (i + 2) :: u32]) js))
     = concat (map (\<lambda>i. [i, i + 1, i + 2]) js)"
proof (induction js)
  case Nil
  then show ?case by simp
next
  case (Cons j js)
  then have b: "j < 2 ^ 32" "j + 1 < 2 ^ 32" "j + 2 < 2 ^ 32" by auto
  have "unat (of_nat j :: u32) = j" "unat (of_nat (j + 1) :: u32) = j + 1"
    "unat (of_nat (j + 2) :: u32) = j + 2"
    by (rule unat_of_nat_u32 [OF b(1)], rule unat_of_nat_u32 [OF b(2)],
        rule unat_of_nat_u32 [OF b(3)])
  with Cons show ?case by (simp del: of_nat_add of_nat_Suc)
qed

text \<open>
  The filter loop on a well-formed index sequence: it never leaves the vectors, keeps the
  triangles that pass the test, in order, and reports the others.
\<close>

lemma filter_loop_eq:
  assumes "(length ixs - i) mod 3 = 0"
      and "\<forall>k. i \<le> k \<and> k < length ixs \<longrightarrow> unat (ixs ! k) < length vs"
  shows "filter_loop vs ixs i acc out =
           Inr (acc @ untriple (filter (\<lambda>(a, b, c). edges_ok vs a b c) (triples (drop i ixs))),
                out @ map (\<lambda>(a, b, c). removed_event vs a b c)
                        (filter (\<lambda>(a, b, c). \<not> edges_ok vs a b c) (triples (drop i ixs))))"
  using assms
proof (induction vs ixs i acc out rule: filter_loop.induct)
  case (1 vs ixs i acc out)
  show ?case
  proof (cases "i < length ixs")
    case False
    then show ?thesis by (subst filter_loop.simps) (simp add: untriple_Nil)
  next
    case True
    with "1.prems"(1) have three: "i + 2 < length ixs" by presburger
    have valid: "unat (ixs ! i) < length vs" "unat (ixs ! (i + 1)) < length vs"
      "unat (ixs ! (i + 2)) < length vs"
      using "1.prems"(2) three by auto
    have rest: "(length ixs - (i + 3)) mod 3 = 0"
      using "1.prems"(1) three by presburger
    have rest_valid: "\<forall>k. i + 3 \<le> k \<and> k < length ixs \<longrightarrow> unat (ixs ! k) < length vs"
      using "1.prems"(2) by auto
    note d = drop_three [OF three]
    show ?thesis
    proof (cases "edges_ok vs (ixs ! i) (ixs ! (i + 1)) (ixs ! (i + 2))")
      case ok: True
      have "filter_loop vs ixs i acc out
            = filter_loop vs ixs (i + 3) (acc @ [ixs ! i, ixs ! (i + 1), ixs ! (i + 2)]) out"
        using True three valid ok by (subst filter_loop.simps) simp
      also note "1.IH"(1) [OF True _ ok rest rest_valid]
      finally show ?thesis using three valid ok d by (simp add: untriple_Cons)
    next
      case bad: False
      have "filter_loop vs ixs i acc out
            = filter_loop vs ixs (i + 3) acc
                (out @ [removed_event vs (ixs ! i) (ixs ! (i + 1)) (ixs ! (i + 2))])"
        using True three valid bad by (subst filter_loop.simps) simp
      also note "1.IH"(2) [OF True _ bad rest rest_valid]
      finally show ?thesis using three valid bad d by (simp add: untriple_Cons)
    qed
  qed
qed

lemma indices_valid_filter:
  "indices_valid vs ixs \<Longrightarrow> indices_valid vs (untriple (filter P (triples ixs)))"
  using set_untriple_filter [of P ixs]
  by (auto simp: indices_valid_def length_untriple list_all_iff)

lemma filter_loop_valid:
  assumes "indices_valid vs ixs"
  shows "filter_loop vs ixs 0 [] [] =
           Inr (untriple (filter (\<lambda>(a, b, c). edges_ok vs a b c) (triples ixs)),
                map (\<lambda>(a, b, c). removed_event vs a b c)
                    (filter (\<lambda>(a, b, c). \<not> edges_ok vs a b c) (triples ixs)))"
proof -
  have "(length ixs - 0) mod 3 = 0"
    using assms by (simp add: indices_valid_def)
  moreover have "\<forall>k. 0 \<le> k \<and> k < length ixs \<longrightarrow> unat (ixs ! k) < length vs"
    using assms by (simp add: indices_valid_def list_all_length)
  ultimately show ?thesis
    using filter_loop_eq [of ixs 0 vs "[]" "[]"] by simp
qed

lemma indices_valid_candidates:
  "3 \<le> length points \<Longrightarrow>
   indices_valid (map vertex_of_point points) (emit_candidates (sort_points points) [])"
proof -
  assume n: "3 \<le> length points"
  have "unat (of_nat k :: u32) < length points" if "k < length points" for k
    using that unat_of_nat_u32_le [of k] by simp
  then show ?thesis
    using n by (auto simp: indices_valid_def emit_candidates_eq length_sort_points
        length_concat_three list_all_iff simp del: of_nat_add of_nat_Suc)
qed

lemma length_add_normal: "length (add_normal vs k n) = length vs"
  by (simp add: add_normal_def)

lemma position_add_normal: "map position (add_normal vs k n) = map position vs"
proof (cases "k < length vs")
  case True
  then have "(map position vs)[k := map position vs ! k] = map position vs"
    by (simp only: list_update_id)
  with True show ?thesis by (simp add: add_normal_def map_update)
next
  case False
  then show ?thesis by (simp add: add_normal_def list_update_beyond)
qed

lemma accumulate_loop_positions:
  "accumulate_loop ixs i vs = Inr vs' \<Longrightarrow> map position vs' = map position vs"
proof (induction ixs i vs rule: accumulate_loop.induct)
  case (1 ixs i vs)
  show ?case
  proof (cases "i < length ixs")
    case False
    with "1.prems" show ?thesis by (subst (asm) accumulate_loop.simps) simp
  next
    case True
    show ?thesis
    proof (cases "i + 2 < length ixs \<and> unat (ixs ! i) < length vs
        \<and> unat (ixs ! (i + 1)) < length vs \<and> unat (ixs ! (i + 2)) < length vs")
      case False
      with True "1.prems" show ?thesis by (subst (asm) accumulate_loop.simps) auto
    next
      case ok: True
      let ?n = "face_normal vs (ixs ! i) (ixs ! (i + 1)) (ixs ! (i + 2))"
      let ?v1 = "add_normal vs (unat (ixs ! i)) ?n"
      let ?v2 = "add_normal ?v1 (unat (ixs ! (i + 1))) ?n"
      let ?v3 = "add_normal ?v2 (unat (ixs ! (i + 2))) ?n"
      have "accumulate_loop ixs (i + 3) ?v3 = Inr vs'"
        using "1.prems" True ok by (subst (asm) accumulate_loop.simps) (simp add: Let_def)
      then have "map position vs' = map position ?v3"
        using "1.IH" [OF True ok refl refl refl refl] by simp
      then show ?thesis by (simp add: position_add_normal)
    qed
  qed
qed

lemma accumulate_loop_total:
  assumes "(length ixs - i) mod 3 = 0"
      and "\<forall>k. i \<le> k \<and> k < length ixs \<longrightarrow> unat (ixs ! k) < length vs"
  shows "\<exists>vs'. accumulate_loop ixs i vs = Inr vs'"
  using assms
proof (induction ixs i vs rule: accumulate_loop.induct)
  case (1 ixs i vs)
  show ?case
  proof (cases "i < length ixs")
    case False
    then show ?thesis by (subst accumulate_loop.simps) simp
  next
    case True
    with "1.prems"(1) have three: "i + 2 < length ixs" by presburger
    have valid: "unat (ixs ! i) < length vs" "unat (ixs ! (i + 1)) < length vs"
      "unat (ixs ! (i + 2)) < length vs"
      using "1.prems"(2) three by auto
    have ok: "i + 2 < length ixs \<and> unat (ixs ! i) < length vs
        \<and> unat (ixs ! (i + 1)) < length vs \<and> unat (ixs ! (i + 2)) < length vs"
      using three valid by simp
    let ?n = "face_normal vs (ixs ! i) (ixs ! (i + 1)) (ixs ! (i + 2))"
    let ?v1 = "add_normal vs (unat (ixs ! i)) ?n"
    let ?v2 = "add_normal ?v1 (unat (ixs ! (i + 1))) ?n"
    let ?v3 = "add_normal ?v2 (unat (ixs ! (i + 2))) ?n"
    have rest: "(length ixs - (i + 3)) mod 3 = 0"
      using "1.prems"(1) three by presburger
    have rest_valid: "\<forall>k. i + 3 \<le> k \<and> k < length ixs \<longrightarrow> unat (ixs ! k) < length ?v3"
      using "1.prems"(2) by (auto simp: length_add_normal)
    have "\<exists>vs'. accumulate_loop ixs (i + 3) ?v3 = Inr vs'"
      by (rule "1.IH" [OF True ok refl refl refl refl rest rest_valid])
    moreover have "accumulate_loop ixs i vs = accumulate_loop ixs (i + 3) ?v3"
      using True ok by (subst accumulate_loop.simps) (simp add: Let_def)
    ultimately show ?thesis by simp
  qed
qed


section \<open>Evaluations\<close>

lemma glm_normalize_zero:
  "glm_normalize \<lparr>vx = fzero a, vy = fzero b, vz = fzero c\<rparr> = nan_vec"
  by (simp add: glm_eval float_eval cong: let_weak_cong)

lemma strip_vertices_length: "length (map vertex_of_point strip_example) = 6"
  by (simp add: strip_example_def)

lemma strip_candidates:
  "emit_candidates (sort_points strip_example) [] = [0, 1, 2, 1, 2, 3, 2, 3, 4, 3, 4, 5]"
  by (simp add: emit_candidates_eq length_sort_points strip_example_def upt_rec)

lemma strip_filter:
  "\<exists>out. filter_loop (map vertex_of_point strip_example) [0, 1, 2, 1, 2, 3, 2, 3, 4, 3, 4, 5] 0 [] []
     = Inr ([0, 1, 2, 1, 2, 3], out)"
  by (simp add: strip_example_def tri_eval glm_eval float_eval cong: let_weak_cong)

lemma strip_triangulation:
  "\<exists>out. triangulateSimplified strip_example [] []
     = Inr (map vertex_of_point strip_example, [0, 1, 2, 1, 2, 3], out)"
proof -
  obtain out where "filter_loop (map vertex_of_point strip_example)
      (emit_candidates (sort_points strip_example) []) 0 [] [] = Inr ([0, 1, 2, 1, 2, 3], out)"
    using strip_filter unfolding strip_candidates by blast
  moreover have "\<not> length strip_example < 3" by (simp add: strip_example_def)
  ultimately show ?thesis
    by (simp add: triangulateSimplified_def fill_vertices_eq Let_def)
qed

lemma strip_normals:
  "map_sum id (map normal) (calculateNormals (map vertex_of_point strip_example) [0, 1, 2, 1, 2, 3])
     = Inr [vec3_of (float_of_ratio 0 1) (float_of_ratio (- 1) 1) (float_of_ratio 0 1),
            nan_vec, nan_vec,
            vec3_of (float_of_ratio 0 1) (float_of_ratio 1 1) (float_of_ratio 0 1),
            nan_vec, nan_vec]"
  by (simp add: strip_example_def normals_eval glm_eval float_eval cong: let_weak_cong)


lemma strip_accumulators:
  "map_sum id (map normal)
     (accumulated_normals (map vertex_of_point strip_example) [0, 1, 2, 1, 2, 3])
     = Inr [vec3_of (float_of_ratio 0 1) (float_of_ratio (- 1) 1) (float_of_ratio 0 1),
            vec3_splat (float_of_ratio 0 1), vec3_splat (float_of_ratio 0 1),
            vec3_of (float_of_ratio 0 1) (float_of_ratio 1 1) (float_of_ratio 0 1),
            vec3_splat (float_of_ratio 0 1), vec3_splat (float_of_ratio 0 1)]"
  by (simp add: strip_example_def normals_eval glm_eval float_eval cong: let_weak_cong)

lemma long_edge_kept:
  "\<exists>out. triangulateSimplified long_edge [] []
     = Inr (map vertex_of_point long_edge, [0, 1, 2], out)"
  by (simp add: long_edge_def tri_eval upt_rec glm_eval float_eval cong: let_weak_cong)

lemma short_edge_removed:
  "\<exists>out. triangulateSimplified short_edge [] []
     = Inr (map vertex_of_point short_edge, [], out)"
  by (simp add: short_edge_def tri_eval upt_rec glm_eval float_eval cong: let_weak_cong)

lemma long_edge_length:
  "(15 / 100)\<^sup>2 < sq_dist (position (vertex_of_point (long_edge ! 0)))
                              (position (vertex_of_point (long_edge ! 1)))"
  by (simp add: long_edge_def sq_dist_def vertex_of_point_def point_of_def vec3_of_def valof_def
      float_eval power2_eq_square cong: let_weak_cong)

lemma short_edge_lengths:
  "sq_dist (position (vertex_of_point (short_edge ! 0))) (position (vertex_of_point (short_edge ! 1)))
     < (15 / 100)\<^sup>2"
  "sq_dist (position (vertex_of_point (short_edge ! 1))) (position (vertex_of_point (short_edge ! 2)))
     < (15 / 100)\<^sup>2"
  "sq_dist (position (vertex_of_point (short_edge ! 2))) (position (vertex_of_point (short_edge ! 0)))
     < (15 / 100)\<^sup>2"
  by (simp_all add: short_edge_def sq_dist_def vertex_of_point_def point_of_def vec3_of_def valof_def
      float_eval power2_eq_square cong: let_weak_cong)

lemma long_edge_computed:
  "glm_distance (position (vertex_of_point (long_edge ! 0)))
                (position (vertex_of_point (long_edge ! 1))) = Fin False 10066329 (- 26)"
  "glm_distance (position (vertex_of_point (short_edge ! 0)))
                (position (vertex_of_point (short_edge ! 1))) = Fin False 10066330 (- 26)"
  by (simp_all add: long_edge_def short_edge_def vertex_of_point_def point_of_def glm_eval
      float_eval cong: let_weak_cong)


section \<open>Triangulator\<close>

text \<open>
  Claim C1. For a point sequence of length \<open>N \<ge> 3\<close>, the candidate pass of
  \<open>triangulateSimplified\<close> (run on an empty \<open>indices\<close>, as \<open>main\<close> calls it) emits exactly the
  \<open>N - 2\<close> triples \<open>(i, i + 1, i + 2)\<close> for \<open>i\<close> from \<open>0\<close> to \<open>N - 3\<close>, in that order,
  \<open>3 * (N - 2)\<close> indices in all; the loop over the sorted copy emits what the loop over
  the original sequence would. The indices are \<open>unsigned int\<close>: the emitted values are the
  conversions of \<open>i\<close>, \<open>i + 1\<close> and \<open>i + 2\<close>, which are these numbers themselves as long
  as there are at most \<open>2^32\<close> points. They are positions in the vertex array, which holds
  the points in their original order, whatever \<open>vertices\<close> held before.
\<close>

theorem candidate_triples:
  assumes "3 \<le> length points"
  shows "triples (emit_candidates (sort_points points) []) =
           map (\<lambda>i. (of_nat i, of_nat (i + 1), of_nat (i + 2))) [0..<length points - 2]
         \<and> length (emit_candidates (sort_points points) []) = 3 * (length points - 2)
         \<and> emit_candidates (sort_points points) [] = emit_candidates points []
         \<and> (length points \<le> 2 ^ 32 \<longrightarrow>
              map unat (emit_candidates (sort_points points) []) =
                concat (map (\<lambda>i. [i, i + 1, i + 2]) [0..<length points - 2]))
         \<and> fill_vertices points (resize (length points) vertices) = map vertex_of_point points"
proof -
  let ?n = "length points - 2"
  let ?c = "emit_candidates (sort_points points) []"
  have c: "?c = concat (map (\<lambda>i. [of_nat i, of_nat (i + 1), of_nat (i + 2)]) [0..<?n])"
    by (simp add: emit_candidates_eq length_sort_points)
  have t: "triples ?c = map (\<lambda>i. (of_nat i, of_nat (i + 1), of_nat (i + 2))) [0..<?n]"
    unfolding c by (rule triples_concat_map)
  have l: "length ?c = 3 * ?n"
    unfolding c by (simp add: length_concat_three)
  have s: "?c = emit_candidates points []"
    by (simp add: emit_candidates_eq length_sort_points)
  have u: "map unat ?c = concat (map (\<lambda>i. [i, i + 1, i + 2]) [0..<?n])"
    if small: "length points \<le> 2 ^ 32"
  proof -
    have "\<forall>j\<in>set [0..<?n]. j + 2 < 2 ^ 32"
      using small assms by auto
    then show ?thesis unfolding c by (rule map_unat_candidates)
  qed
  from t l s u fill_vertices_eq [of points vertices] show ?thesis by blast
qed

text \<open>The six points of \<open>strip_example\<close> give the four windows (0,1,2), (1,2,3), (2,3,4), (3,4,5).\<close>

theorem candidate_triples_witness:
  "3 \<le> length strip_example
   \<and> triples (emit_candidates (sort_points strip_example) [])
       = [(0, 1, 2), (1, 2, 3), (2, 3, 4), (3, 4, 5)]
   \<and> map unat (emit_candidates (sort_points strip_example) [])
       = [0, 1, 2, 1, 2, 3, 2, 3, 4, 3, 4, 5]"
proof -
  have h: "3 \<le> length strip_example" by (simp add: strip_example_def)
  have n: "length strip_example - 2 = 4" by (simp add: strip_example_def)
  have small: "length strip_example \<le> 2 ^ 32" by (simp add: strip_example_def)
  have r: "[0..<4] = [0, 1, 2, 3 :: nat]" by (simp add: upt_rec)
  have u: "concat (map (\<lambda>i. [i, i + 1, i + 2]) [0, 1, 2, 3 :: nat])
      = [0, 1, 2, 1, 2, 3, 2, 3, 4, 3, 4, 5]"
    by (simp add: eval_nat_numeral)
  note c = candidate_triples [OF h, unfolded n r]
  from c [THEN conjunct1] have "triples (emit_candidates (sort_points strip_example) [])
      = [(0, 1, 2), (1, 2, 3), (2, 3, 4), (3, 4, 5)]"
    by simp
  moreover have "map unat (emit_candidates (sort_points strip_example) [])
      = [0, 1, 2, 1, 2, 3, 2, 3, 4, 3, 4, 5]"
    using c [THEN conjunct2, THEN conjunct2, THEN conjunct2, THEN conjunct1, THEN mp, OF small]
    unfolding u .
  ultimately show ?thesis using h by blast
qed

text \<open>
  Claim C2. The claim is that the filter keeps a triangle if and only if its three Euclidean
  edge lengths are strictly less than 0.15. The source tests the lengths that
  \<open>glm::distance\<close> computes in \<open>float\<close> arithmetic, where the differences, the squares,
  the sums and the square root are each rounded, and an exact length can be on the other
  side of 0.15. In \<open>long_edge\<close> the edge from (0,0,0) to (4097/32768, 0, 11122569/134217728)
  has the length 0.15000000132; its computed length is the float 0.14999999106, the one
  before \<open>0.15f\<close>, and the triangle is kept. In \<open>short_edge\<close> the three lengths are below
  0.15, the longest being 0.14999999959; its computed length is \<open>0.15f\<close>, and the triangle
  is removed.
\<close>

theorem filter_differs_from_exact_length:
  "(\<exists>out. triangulateSimplified long_edge [] []
        = Inr (map vertex_of_point long_edge, [0, 1, 2], out))
   \<and> \<not> exact_edges_below (15 / 100) (map vertex_of_point long_edge) (0, 1, 2)
   \<and> (\<exists>out. triangulateSimplified short_edge [] []
        = Inr (map vertex_of_point short_edge, [], out))
   \<and> exact_edges_below (15 / 100) (map vertex_of_point short_edge) (0, 1, 2)"
proof -
  have "\<not> exact_edges_below (15 / 100) (map vertex_of_point long_edge) (0, 1, 2)"
    using long_edge_length by (simp add: exact_edges_below_def Let_def long_edge_def)
  moreover have "exact_edges_below (15 / 100) (map vertex_of_point short_edge) (0, 1, 2)"
  proof -
    have "finite_vec (position (vertex_of_point (short_edge ! 0)))"
      "finite_vec (position (vertex_of_point (short_edge ! 1)))"
      "finite_vec (position (vertex_of_point (short_edge ! 2)))"
      by (simp_all add: short_edge_def finite_vec_def vertex_of_point_def point_of_def
          vec3_of_def is_finite_def float_eval cong: let_weak_cong)
    then show ?thesis
      using short_edge_lengths by (simp add: exact_edges_below_def Let_def short_edge_def)
  qed
  ultimately show ?thesis using long_edge_kept short_edge_removed by blast
qed

text \<open>
  Claim C2, as the source has it. On a well-formed candidate list the filter keeps exactly
  the candidates whose three computed edge lengths are finite and less than 0.15, in their
  order (the source compares with the literal \<open>0.15f\<close>, the float nearest to 0.15 and a
  little above it; \<open>distance_below_threshold\<close> shows that for a computed length this is the
  comparison with 0.15). Against the Euclidean lengths of the edges: every surviving
  triangle has finite positions and its three Euclidean edge lengths are below
  \<open>0.15 * (1 + 2^-20)\<close>; every candidate with finite positions whose three Euclidean edge
  lengths are below \<open>0.15 * (1 - 2^-20)\<close> survives. The filter applied to its own output
  returns it unchanged and reports no removal. (\<open>exact_edges_below\<close> compares the squares of
  the lengths.)
\<close>

theorem edge_length_filter:
  assumes "indices_valid vertices indices"
  shows "\<exists>kept out.
           filter_loop vertices indices 0 [] [] = Inr (kept, out)
         \<and> triples kept = filter (computed_edges_below vertices) (triples indices)
         \<and> (\<forall>t\<in>set (triples kept).
               exact_edges_below (15 / 100 * (1 + 1 / 2 ^ 20)) vertices t)
         \<and> (\<forall>t\<in>set (triples indices).
               exact_edges_below (15 / 100 * (1 - 1 / 2 ^ 20)) vertices t
               \<longrightarrow> t \<in> set (triples kept))
         \<and> kept = untriple (triples kept)
         \<and> filter_loop vertices kept 0 [] [] = Inr (kept, [])"
proof -
  let ?P = "\<lambda>(a, b, c). edges_ok vertices a b c"
  let ?kept = "untriple (filter ?P (triples indices))"
  have P: "computed_edges_below vertices = ?P" by (rule computed_edges_below_eq)
  have run: "filter_loop vertices indices 0 [] [] =
      Inr (?kept, map (\<lambda>(a, b, c). removed_event vertices a b c)
                    (filter (\<lambda>(a, b, c). \<not> edges_ok vertices a b c) (triples indices)))"
    by (rule filter_loop_valid [OF assms])
  have t: "triples ?kept = filter ?P (triples indices)"
    by (rule triples_untriple)
  have again: "filter_loop vertices ?kept 0 [] [] = Inr (?kept, [])"
  proof -
    have "filter (\<lambda>x. \<not> ?P x) (filter ?P (triples indices)) = []"
      by (simp add: filter_empty_conv)
    moreover have "(\<lambda>(a, b, c). \<not> edges_ok vertices a b c) = (\<lambda>x. \<not> ?P x)"
      by (simp add: fun_eq_iff)
    ultimately show ?thesis
      using filter_loop_valid [OF indices_valid_filter [OF assms, of ?P]]
      by (simp add: t)
  qed
  have sound: "\<forall>t\<in>set (triples ?kept).
      exact_edges_below (15 / 100 * (1 + 1 / 2 ^ 20)) vertices t"
  proof
    fix x
    assume "x \<in> set (triples ?kept)"
    then have "?P x" unfolding t by simp
    then have "computed_edges_below vertices x" unfolding P .
    then show "exact_edges_below (15 / 100 * (1 + 1 / 2 ^ 20)) vertices x"
      by (rule computed_imp_exact)
  qed
  have complete: "\<forall>t\<in>set (triples indices).
      exact_edges_below (15 / 100 * (1 - 1 / 2 ^ 20)) vertices t \<longrightarrow> t \<in> set (triples ?kept)"
  proof (intro ballI impI)
    fix x
    assume x: "x \<in> set (triples indices)"
      and e: "exact_edges_below (15 / 100 * (1 - 1 / 2 ^ 20)) vertices x"
    have "computed_edges_below vertices x" using e by (rule exact_imp_computed)
    then have "?P x" unfolding P .
    with x show "x \<in> set (triples ?kept)" unfolding t by simp
  qed
  have k: "?kept = untriple (triples ?kept)" by (simp add: t)
  show ?thesis
    unfolding P using run t sound complete k again by (intro exI conjI)
qed

text \<open>
  On the candidates of \<open>strip_example\<close>: the triangle (0,1,2) has its three Euclidean edge
  lengths, 1/16, 0.0884 and 1/16, below \<open>0.15 * (1 - 2^-20)\<close> and is kept; the filter keeps
  (0,1,2) and (1,2,3), whose edges are therefore below \<open>0.15 * (1 + 2^-20)\<close>; run again on
  them it keeps both and removes nothing.
\<close>

theorem edge_length_filter_witness:
  "indices_valid (map vertex_of_point strip_example) [0, 1, 2, 1, 2, 3, 2, 3, 4, 3, 4, 5]
   \<and> exact_edges_below (15 / 100 * (1 - 1 / 2 ^ 20)) (map vertex_of_point strip_example) (0, 1, 2)
   \<and> (\<exists>out. filter_loop (map vertex_of_point strip_example)
               [0, 1, 2, 1, 2, 3, 2, 3, 4, 3, 4, 5] 0 [] [] = Inr ([0, 1, 2, 1, 2, 3], out))
   \<and> exact_edges_below (15 / 100 * (1 + 1 / 2 ^ 20)) (map vertex_of_point strip_example) (1, 2, 3)
   \<and> filter_loop (map vertex_of_point strip_example) [0, 1, 2, 1, 2, 3] 0 [] []
       = Inr ([0, 1, 2, 1, 2, 3], [])"
proof -
  let ?vs = "map vertex_of_point strip_example"
  let ?c = "[0, 1, 2, 1, 2, 3, 2, 3, 4, 3, 4, 5] :: u32 list"
  have v: "indices_valid ?vs ?c"
    by (simp add: indices_valid_def strip_example_def)
  obtain kept out where k: "filter_loop ?vs ?c 0 [] [] = Inr (kept, out)"
    and s: "\<forall>t\<in>set (triples kept). exact_edges_below (15 / 100 * (1 + 1 / 2 ^ 20)) ?vs t"
    and c: "\<forall>t\<in>set (triples ?c).
        exact_edges_below (15 / 100 * (1 - 1 / 2 ^ 20)) ?vs t \<longrightarrow> t \<in> set (triples kept)"
    and i: "filter_loop ?vs kept 0 [] [] = Inr (kept, [])"
    using edge_length_filter [OF v] by blast
  have e: "exact_edges_below (15 / 100 * (1 - 1 / 2 ^ 20)) ?vs (0, 1, 2)"
    by (simp add: exact_edges_below_def finite_vec_def sq_dist_def strip_example_def
        vertex_of_point_def point_of_def vec3_of_def valof_def is_finite_def float_eval
        power2_eq_square cong: let_weak_cong)
  have "(0, 1, 2) \<in> set (triples ?c)" by simp
  from c [THEN bspec, OF this, THEN mp, OF e] have m: "(0, 1, 2) \<in> set (triples kept)" .
  from k strip_filter have kept: "kept = [0, 1, 2, 1, 2, 3]" by auto
  have "(1, 2, 3) \<in> set (triples kept)" by (simp add: kept)
  from s [THEN bspec, OF this]
  have u: "exact_edges_below (15 / 100 * (1 + 1 / 2 ^ 20)) ?vs (1, 2, 3)" .
  from v e k i u m show ?thesis unfolding kept by blast
qed

text \<open>
  Claim C6. Called with an empty \<open>indices\<close>, \<open>triangulateSimplified\<close> returns without
  leaving its vectors, and its output satisfies the invariant of a mesh: the number of
  indices is a multiple of 3 and every index is a position of the vertex sequence.
\<close>

theorem triangulation_indices_valid:
  "\<exists>vs ixs out. triangulateSimplified points vertices [] = Inr (vs, ixs, out)
     \<and> length ixs mod 3 = 0 \<and> (\<forall>ix\<in>set ixs. unat ix < length vs)"
proof (cases "length points < 3")
  case True
  then show ?thesis by (simp add: triangulateSimplified_def)
next
  case False
  then have n: "3 \<le> length points" by simp
  let ?vs = "map vertex_of_point points"
  let ?c = "emit_candidates (sort_points points) []"
  let ?kept = "untriple (filter (\<lambda>(a, b, c). edges_ok ?vs a b c) (triples ?c))"
  have v: "indices_valid ?vs ?c" by (rule indices_valid_candidates [OF n])
  have "indices_valid ?vs ?kept" by (rule indices_valid_filter [OF v])
  then have k: "length ?kept mod 3 = 0" "\<forall>ix\<in>set ?kept. unat ix < length ?vs"
    by (simp_all add: indices_valid_def list_all_iff)
  obtain out where "triangulateSimplified points vertices [] = Inr (?vs, ?kept, out)"
    using False
    by (simp add: triangulateSimplified_def fill_vertices_eq filter_loop_valid [OF v] Let_def)
  with k show ?thesis by (intro exI conjI)
qed

text \<open>For \<open>strip_example\<close> the output is the six vertices and the indices 0,1,2,1,2,3.\<close>

theorem triangulation_indices_valid_witness:
  "\<exists>out. triangulateSimplified strip_example [] []
      = Inr (map vertex_of_point strip_example, [0, 1, 2, 1, 2, 3], out)
    \<and> length [0, 1, 2, 1, 2, 3 :: u32] mod 3 = 0
    \<and> (\<forall>ix\<in>set [0, 1, 2, 1, 2, 3 :: u32]. unat ix < length (map vertex_of_point strip_example))"
proof -
  obtain vs ixs out where r: "triangulateSimplified strip_example [] [] = Inr (vs, ixs, out)"
    and m: "length ixs mod 3 = 0" and b: "\<forall>ix\<in>set ixs. unat ix < length vs"
    using triangulation_indices_valid [of strip_example "[]"] by auto
  from r strip_triangulation have e: "vs = map vertex_of_point strip_example"
    "ixs = [0, 1, 2, 1, 2, 3]" by auto
  show ?thesis
    using r m b unfolding e by (intro exI conjI)
qed

text \<open>
  Claim C8. With fewer than three points \<open>triangulateSimplified\<close> writes "Not enough points
  to create a mesh." to \<open>std::cerr\<close> and returns, touching neither \<open>vertices\<close> nor \<open>indices\<close>
  and leaving no vector: called with both empty, as \<open>main\<close> does, it leaves an empty mesh
  with zero triangles.
\<close>

theorem insufficient_points:
  assumes "length points < 3"
  shows "triangulateSimplified points vertices indices = Inr (vertices, indices, [NotEnoughPoints])
         \<and> triangulateSimplified points [] [] = Inr ([], [], [NotEnoughPoints])"
  using assms by (simp add: triangulateSimplified_def)

theorem insufficient_points_witness:
  "length two_points < 3 \<and> triangulateSimplified two_points [] [] = Inr ([], [], [NotEnoughPoints])"
proof -
  have h: "length two_points < 3" by (simp add: two_points_def)
  show ?thesis using h insufficient_points [OF h, of "[]" "[]"] by simp
qed

text \<open>
  Claim C9. \<open>triangulateSimplified\<close> and the triangulator without the sort return the same
  vertices, the same indices and the same output, for every content of its three
  parameters.
\<close>

theorem sort_has_no_effect:
  "triangulateSimplified points vertices indices = triangulate_without_sort points vertices indices"
  by (simp add: triangulateSimplified_def triangulate_without_sort_def emit_candidates_def
      length_sort_points)

theorem sort_has_no_effect_witness:
  "\<exists>out. triangulate_without_sort strip_example [] []
     = Inr (map vertex_of_point strip_example, [0, 1, 2, 1, 2, 3], out)"
  using strip_triangulation sort_has_no_effect [of strip_example "[]" "[]"] by simp


section \<open>Normalizer\<close>

lemma length_normalizePoints: "length (fst (normalizePoints points)) = length points"
  by (simp add: normalizePoints_def Let_def)

text \<open>
  Claim C3. The claim is that after normalisation every coordinate lies in [-1, 1], that
  some coordinate is exactly 1 or -1 unless the samples coincide, and that order and length
  are kept. \<open>normalizePoints\<close> keeps order and length (\<open>length_normalizePoints\<close>), and prints
  "Points normalized to range [-1, 1].". The bound fails in float arithmetic when the
  extent is a few units in the last place of the coordinates: the sum \<open>minX + maxX\<close> is
  rounded, the centre falls beside the middle of the interval, and the division by the
  small scale magnifies the error. For the x coordinates 1 and \<open>1 + 2^-23\<close> the sum rounds
  to 2, the centre is 1 and the scale \<open>2^-24\<close>: the outputs are 0 and 2. For 6600000 and
  6600001.5 the centre is 6600001 and the scale 0.75: the outputs are the floats nearest
  to -4/3 and 2/3. In both cases a coordinate lies outside [-1, 1] and none is 1 or -1.
\<close>

theorem normalizePoints_out_of_range:
  "normalizePoints close_pair
     = ([point_of (0, 1) (0, 1) (0, 1), point_of (2, 1) (0, 1) (0, 1)], [PointsNormalized])
   \<and> normalizePoints utm_pair
     = ([point_of (- 4, 3) (0, 1) (0, 1), point_of (2, 3) (0, 1) (0, 1)], [PointsNormalized])
   \<and> fgt (float_of_ratio 2 1) (float_of_ratio 1 1)
   \<and> flt (float_of_ratio (- 4) 3) (float_of_ratio (- 1) 1)"
  by (simp add: close_pair_def utm_pair_def normalize_eval float_eval cong: let_weak_cong)

text \<open>
  Claim C7. The claim is that on an empty sequence the normaliser changes nothing and
  signals a degenerate input to its caller. \<open>normalizePoints\<close> returns at once on an empty
  vector: it changes nothing, and it prints nothing and returns \<open>void\<close>, so it gives no
  signal. (\<open>main\<close> tests \<open>points.empty()\<close> itself, before the call.) What holds: on an empty
  sequence the result is the empty sequence and no output; on any other sequence the only
  output is the message that the points were normalised.
\<close>

theorem normalizePoints_empty_no_signal: "snd (normalizePoints []) = []"
  by (simp add: normalizePoints_def)

theorem normalizePoints_empty:
  "normalizePoints [] = ([], [])
   \<and> (points \<noteq> [] \<longrightarrow> snd (normalizePoints points) = [PointsNormalized]
        \<and> length (fst (normalizePoints points)) = length points)"
  by (simp add: normalizePoints_def Let_def)

theorem normalizePoints_empty_witness:
  "two_points \<noteq> [] \<and> snd (normalizePoints two_points) = [PointsNormalized]
   \<and> length (fst (normalizePoints two_points)) = 2"
proof -
  have h: "two_points \<noteq> []" by (simp add: two_points_def)
  have l: "length two_points = 2" by (simp add: two_points_def)
  show ?thesis
    using h normalizePoints_empty [of two_points, THEN conjunct2, THEN mp, OF h] by (simp add: l)
qed

section \<open>Normal Estimator\<close>

lemma centred_square_triangulation:
  "\<exists>out. triangulateSimplified centred_square [] []
     = Inr (map vertex_of_point centred_square, [], out)"
  by (simp add: centred_square_def tri_eval upt_rec glm_eval float_eval cong: let_weak_cong)

text \<open>
  Whatever the indices, a vertex whose accumulator is a zero vector (each component a zero
  of either sign) ends with three NaN components: \<open>glm::normalize\<close> multiplies the zero by
  \<open>1 / sqrt 0\<close>, an infinity.
\<close>

lemma zero_accumulator_nan:
  assumes "accumulated_normals vertices indices = Inr acc"
      and "k < length acc"
      and "normal (acc ! k) = \<lparr>vx = fzero a, vy = fzero b, vz = fzero c\<rparr>"
  shows "\<exists>vs. calculateNormals vertices indices = Inr vs \<and> normal (vs ! k) = nan_vec"
  using assms by (simp add: calculateNormals_def normalize_normal_def glm_normalize_zero)

text \<open>
  Claim C4. The claim is that a vertex whose accumulated normal is the zero vector, such as
  a vertex that no surviving triangle references, keeps the zero vector. \<open>calculateNormals\<close>
  has no such case: its last loop applies \<open>glm::normalize\<close> to every accumulator. The
  samples (0,0,0), (1,0,0), (1,0,1), (0,0,1) of the unit square are normalised to the square
  of side 2 around the origin; both candidate triangles have edges of length 2 and more
  and are removed; no vertex is referenced, and the four normals end as (NaN, NaN, NaN).
\<close>

theorem unreferenced_vertex_normal_nan:
  "normalizePoints unit_square = (centred_square, [PointsNormalized])
   \<and> (\<exists>out. triangulateSimplified centred_square [] []
         = Inr (map vertex_of_point centred_square, [], out))
   \<and> map_sum id (map normal) (calculateNormals (map vertex_of_point centred_square) [])
       = Inr [nan_vec, nan_vec, nan_vec, nan_vec]"
proof -
  have "normalizePoints unit_square = (centred_square, [PointsNormalized])"
    by (simp add: unit_square_def centred_square_def normalize_eval float_eval
        cong: let_weak_cong)
  moreover have "map_sum id (map normal) (calculateNormals (map vertex_of_point centred_square) [])
       = Inr [nan_vec, nan_vec, nan_vec, nan_vec]"
    by (simp add: centred_square_def normals_eval glm_eval float_eval cong: let_weak_cong)
  ultimately show ?thesis using centred_square_triangulation by blast
qed

text \<open>
  Claim C5. The claim is that every vertex referenced by a surviving triangle ends with a
  normal of magnitude 1 within 1e-4. The six samples of \<open>strip_example\<close> are left as they
  are by \<open>normalizePoints\<close>; \<open>triangulateSimplified\<close> keeps the triangles (0,1,2) and (1,2,3).
  The two windows run around the plane in opposite senses, so their face normals are
  (0,-1,0) and (0,1,0). The vertices 1 and 2 belong to both: their accumulators are the
  zero vector, which has no direction, and their normals do not have magnitude 1 (the
  source leaves three NaN there). The vertices 0 and 3 end with (0,-1,0) and (0,1,0).
\<close>

theorem referenced_vertex_normal_nan:
  "normalizePoints strip_example = (strip_example, [PointsNormalized])
   \<and> (\<exists>out. triangulateSimplified strip_example [] []
         = Inr (map vertex_of_point strip_example, [0, 1, 2, 1, 2, 3], out))
   \<and> map_sum id (map normal)
        (accumulated_normals (map vertex_of_point strip_example) [0, 1, 2, 1, 2, 3])
       = Inr [vec3_of (float_of_ratio 0 1) (float_of_ratio (- 1) 1) (float_of_ratio 0 1),
              vec3_splat (float_of_ratio 0 1), vec3_splat (float_of_ratio 0 1),
              vec3_of (float_of_ratio 0 1) (float_of_ratio 1 1) (float_of_ratio 0 1),
              vec3_splat (float_of_ratio 0 1), vec3_splat (float_of_ratio 0 1)]
   \<and> map_sum id (map normal)
        (calculateNormals (map vertex_of_point strip_example) [0, 1, 2, 1, 2, 3])
       = Inr [vec3_of (float_of_ratio 0 1) (float_of_ratio (- 1) 1) (float_of_ratio 0 1),
              nan_vec, nan_vec,
              vec3_of (float_of_ratio 0 1) (float_of_ratio 1 1) (float_of_ratio 0 1),
              nan_vec, nan_vec]
   \<and> \<not> finite_vec nan_vec"
proof -
  have "normalizePoints strip_example = (strip_example, [PointsNormalized])"
    by (simp add: strip_example_def normalize_eval float_eval cong: let_weak_cong)
  moreover have "\<not> finite_vec nan_vec"
    by (simp add: finite_vec_def nan_vec_def vec3_splat_def vec3_of_def is_finite_def)
  ultimately show ?thesis
    using strip_triangulation strip_accumulators strip_normals by blast
qed

text \<open>
  Claim C5, for the vertices whose accumulated normal has a direction. On a well-formed
  mesh \<open>calculateNormals\<close> returns, and every vertex whose accumulator, the sum of the
  face normals of its triangles, is a finite vector of Euclidean length between
  \<open>2^-62.5\<close> and \<open>2^62.5\<close> ends with a finite normal of magnitude 1 within 1e-4. This
  leaves out the accumulators that are the zero vector, as at a vertex whose faces cancel
  or that no triangle references, and those with a NaN from a degenerate triangle.
  (\<open>sq_norm\<close> is the square of the magnitude.)
\<close>

theorem normals_unit_length:
  assumes "indices_valid vertices indices"
  shows "\<exists>acc vs'.
           accumulated_normals vertices indices = Inr acc
         \<and> calculateNormals vertices indices = Inr vs'
         \<and> length acc = length vertices \<and> length vs' = length vertices
         \<and> (\<forall>k<length vertices.
               finite_vec (normal (acc ! k))
               \<and> 1 / 2 ^ 125 \<le> sq_norm (normal (acc ! k))
               \<and> sq_norm (normal (acc ! k)) \<le> 2 ^ 125
               \<longrightarrow> finite_vec (normal (vs' ! k))
                 \<and> (1 - 1 / 10000)\<^sup>2 \<le> sq_norm (normal (vs' ! k))
                 \<and> sq_norm (normal (vs' ! k)) \<le> (1 + 1 / 10000)\<^sup>2)"
proof -
  have "\<exists>acc. accumulate_loop indices 0 (map reset_normal vertices) = Inr acc"
    using assms by (intro accumulate_loop_total) (simp_all add: indices_valid_def list_all_length)
  then obtain acc where acc: "accumulated_normals vertices indices = Inr acc"
    by (auto simp: accumulated_normals_def)
  let ?vs = "map normalize_normal acc"
  have r: "calculateNormals vertices indices = Inr ?vs"
    by (simp add: calculateNormals_def acc)
  have "map position acc = map position (map reset_normal vertices)"
    by (rule accumulate_loop_positions [OF acc [unfolded accumulated_normals_def]])
  then have "length (map position acc) = length (map position (map reset_normal vertices))"
    by (rule arg_cong)
  then have la: "length acc = length vertices" by simp
  have lv: "length ?vs = length vertices" by (simp add: la)
  have u: "\<forall>k<length vertices.
      finite_vec (normal (acc ! k))
      \<and> 1 / 2 ^ 125 \<le> sq_norm (normal (acc ! k))
      \<and> sq_norm (normal (acc ! k)) \<le> 2 ^ 125
      \<longrightarrow> finite_vec (normal (?vs ! k))
        \<and> (1 - 1 / 10000)\<^sup>2 \<le> sq_norm (normal (?vs ! k))
        \<and> sq_norm (normal (?vs ! k)) \<le> (1 + 1 / 10000)\<^sup>2"
  proof (intro allI impI)
    fix k
    assume k: "k < length vertices"
      and h: "finite_vec (normal (acc ! k))
        \<and> 1 / 2 ^ 125 \<le> sq_norm (normal (acc ! k))
        \<and> sq_norm (normal (acc ! k)) \<le> 2 ^ 125"
    have n: "normal (?vs ! k) = glm_normalize (normal (acc ! k))"
      using k la by (simp add: normalize_normal_def)
    from h have h1: "finite_vec (normal (acc ! k))"
      and h2: "1 / 2 ^ 125 \<le> sq_norm (normal (acc ! k))"
      and h3: "sq_norm (normal (acc ! k)) \<le> 2 ^ 125" by blast+
    show "finite_vec (normal (?vs ! k))
        \<and> (1 - 1 / 10000)\<^sup>2 \<le> sq_norm (normal (?vs ! k))
        \<and> sq_norm (normal (?vs ! k)) \<le> (1 + 1 / 10000)\<^sup>2"
      unfolding n using glm_normalize_unit_exact [OF h1 h2 h3] by (intro conjI)
  qed
  show ?thesis using acc r la lv u by (intro exI conjI)
qed

text \<open>
  On the mesh of \<open>strip_example\<close>: the accumulator of vertex 0 is (0,-1,0), of magnitude 1,
  and its normal has magnitude 1 within 1e-4.
\<close>

theorem normals_unit_length_witness:
  "indices_valid (map vertex_of_point strip_example) [0, 1, 2, 1, 2, 3]
   \<and> (\<exists>acc vs'.
         accumulated_normals (map vertex_of_point strip_example) [0, 1, 2, 1, 2, 3] = Inr acc
       \<and> calculateNormals (map vertex_of_point strip_example) [0, 1, 2, 1, 2, 3] = Inr vs'
       \<and> finite_vec (normal (acc ! 0)) \<and> sq_norm (normal (acc ! 0)) = 1
       \<and> finite_vec (normal (vs' ! 0))
       \<and> (1 - 1 / 10000)\<^sup>2 \<le> sq_norm (normal (vs' ! 0))
       \<and> sq_norm (normal (vs' ! 0)) \<le> (1 + 1 / 10000)\<^sup>2)"
proof -
  let ?vs = "map vertex_of_point strip_example"
  let ?ixs = "[0, 1, 2, 1, 2, 3] :: u32 list"
  have v: "indices_valid ?vs ?ixs"
    by (simp add: indices_valid_def strip_example_def)
  from normals_unit_length [OF v] obtain acc vs'
    where a: "accumulated_normals ?vs ?ixs = Inr acc"
      and r: "calculateNormals ?vs ?ixs = Inr vs'"
      and u: "\<forall>k<length ?vs.
        finite_vec (normal (acc ! k))
        \<and> 1 / 2 ^ 125 \<le> sq_norm (normal (acc ! k))
        \<and> sq_norm (normal (acc ! k)) \<le> 2 ^ 125
        \<longrightarrow> finite_vec (normal (vs' ! k))
          \<and> (1 - 1 / 10000)\<^sup>2 \<le> sq_norm (normal (vs' ! k))
          \<and> sq_norm (normal (vs' ! k)) \<le> (1 + 1 / 10000)\<^sup>2"
    by blast
  have m: "map normal acc
      = [vec3_of (float_of_ratio 0 1) (float_of_ratio (- 1) 1) (float_of_ratio 0 1),
         vec3_splat (float_of_ratio 0 1), vec3_splat (float_of_ratio 0 1),
         vec3_of (float_of_ratio 0 1) (float_of_ratio 1 1) (float_of_ratio 0 1),
         vec3_splat (float_of_ratio 0 1), vec3_splat (float_of_ratio 0 1)]"
    using strip_accumulators unfolding a by simp
  then have "map normal acc ! 0
      = vec3_of (float_of_ratio 0 1) (float_of_ratio (- 1) 1) (float_of_ratio 0 1)"
    by simp
  moreover have "0 < length acc" using m by (cases acc) simp_all
  ultimately have n0: "normal (acc ! 0)
      = vec3_of (float_of_ratio 0 1) (float_of_ratio (- 1) 1) (float_of_ratio 0 1)"
    by simp
  have f0: "finite_vec (normal (acc ! 0))"
    unfolding n0 by (simp add: finite_vec_def vec3_of_def is_finite_def float_eval cong: let_weak_cong)
  have s0: "sq_norm (normal (acc ! 0)) = 1"
    unfolding n0 by (simp add: sq_norm_def vec3_of_def valof_def float_eval cong: let_weak_cong)
  have k0: "0 < length ?vs" by (simp add: strip_example_def)
  have h: "finite_vec (normal (acc ! 0))
        \<and> 1 / 2 ^ 125 \<le> sq_norm (normal (acc ! 0))
        \<and> sq_norm (normal (acc ! 0)) \<le> 2 ^ 125"
    using f0 by (simp add: s0)
  from u [THEN spec, THEN mp, OF k0, THEN mp, OF h] v a r f0 s0
  show ?thesis by blast
qed

text \<open>
  Claim C10. \<open>calculateNormals\<close> changes only the normals: when it returns, the vertex
  sequence has the length it had and every vertex has the position it had, in the same
  order (\<open>indices\<close> is a reference to const, which the function cannot change). It does
  return whenever the mesh is well formed; otherwise it reads outside a vector.
\<close>

theorem normals_frame:
  "(indices_valid vertices indices \<longrightarrow> (\<exists>vs'. calculateNormals vertices indices = Inr vs'))
   \<and> (\<forall>vs'. calculateNormals vertices indices = Inr vs' \<longrightarrow>
         length vs' = length vertices \<and> map position vs' = map position vertices)"
proof (intro conjI impI allI)
  assume v: "indices_valid vertices indices"
  have "\<exists>vs'. accumulate_loop indices 0 (map reset_normal vertices) = Inr vs'"
    using v by (intro accumulate_loop_total) (simp_all add: indices_valid_def list_all_length)
  then show "\<exists>vs'. calculateNormals vertices indices = Inr vs'"
    by (auto simp: calculateNormals_def accumulated_normals_def)
next
  fix vs'
  assume r: "calculateNormals vertices indices = Inr vs'"
  then obtain acc where acc: "accumulate_loop indices 0 (map reset_normal vertices) = Inr acc"
    and vs': "vs' = map normalize_normal acc"
    by (auto simp: calculateNormals_def accumulated_normals_def split: sum.splits)
  have "map position acc = map position (map reset_normal vertices)"
    by (rule accumulate_loop_positions [OF acc])
  then have p: "map position vs' = map position vertices"
    by (simp add: vs' normalize_normal_def reset_normal_def comp_def)
  then have "length (map position vs') = length (map position vertices)" by simp
  then show "length vs' = length vertices" by simp
  show "map position vs' = map position vertices" by (rule p)
qed

theorem normals_frame_witness:
  "indices_valid (map vertex_of_point strip_example) [0, 1, 2, 1, 2, 3]
   \<and> (\<exists>vs'. calculateNormals (map vertex_of_point strip_example) [0, 1, 2, 1, 2, 3] = Inr vs'
          \<and> length vs' = 6
          \<and> map position vs' = map (position \<circ> vertex_of_point) strip_example)"
proof -
  let ?vs = "map vertex_of_point strip_example"
  let ?ixs = "[0, 1, 2, 1, 2, 3] :: u32 list"
  have v: "indices_valid ?vs ?ixs"
    by (simp add: indices_valid_def strip_example_def)
  note f = normals_frame [of ?vs ?ixs]
  from f [THEN conjunct1, THEN mp, OF v] obtain vs'
    where r: "calculateNormals ?vs ?ixs = Inr vs'" by blast
  have n: "length strip_example = 6" by (simp add: strip_example_def)
  from f [THEN conjunct2, THEN spec, THEN mp, OF r]
  have "length vs' = 6" "map position vs' = map (position \<circ> vertex_of_point) strip_example"
    by (simp_all add: n)
  with v r show ?thesis by blast
qed

end
